theory Spec2Isabelle
  imports Main "HOL-Library.Word" "HOL-Library.List_Lexorder" "HOL-Library.AList"
begin

unbundle bit_operations_syntax

section \<open>Bytes, revisions and their encoding\<close>

text \<open>
  The development follows \<^verbatim>\<open>mvcc/kvstore.go\<close>. Go's \<^verbatim>\<open>int64\<close> and \<^verbatim>\<open>uint64\<close> are 64-bit words
  (signed comparisons are written \<open>\<le>s\<close> and \<open><s\<close>, addition wraps), a \<^verbatim>\<open>[]byte\<close> is a
  list of 8-bit words, and byte slices are compared lexicographically as \<^verbatim>\<open>bytes.Compare\<close>
  does. The model follows one goroutine at a time; of the two mutexes of the store it has
  \<^verbatim>\<open>mu\<close>, which \<^verbatim>\<open>Restore\<close> holds across a call of \<^verbatim>\<open>Compact\<close>.
\<close>

type_synonym byte = "8 word"
type_synonym bytes = "byte list"
type_synonym int64 = "64 word"
type_synonym uint64 = "64 word"

definition bytes_of :: "string \<Rightarrow> bytes" where
  "bytes_of cs = map (\<lambda>c. of_nat (of_char c)) cs"

definition keyBucketName :: bytes where
  "keyBucketName = bytes_of ''key''"

definition metaBucketName :: bytes where
  "metaBucketName = bytes_of ''meta''"

definition consistentIndexKeyName :: bytes where
  "consistentIndexKeyName = bytes_of ''consistent_index''"

definition scheduledCompactKeyName :: bytes where
  "scheduledCompactKeyName = bytes_of ''scheduledCompactRev''"

definition finishedCompactKeyName :: bytes where
  "finishedCompactKeyName = bytes_of ''finishedCompactRev''"

datatype error = ErrCompacted | ErrFutureRev | ErrCanceled | ErrClosed

text \<open>
  The ways in which the Go code stops the process instead of returning: the run-time
  panics of a slice read out of range and of closing a channel that is closed already,
  and the panics the code raises itself.
\<close>

datatype abort = IndexOutOfRange | CannotUnmarshal | NoLessor | CloseOfClosedChannel

text \<open>
  Modelled from the spec: \<^verbatim>\<open>revBytesLen\<close>, declared in \<^verbatim>\<open>revision.go\<close>, which is not among
  the sources. The spec gives a revision key 16 bytes, 8 for each component.
\<close>

definition revBytesLen :: nat where
  "revBytesLen = 16"

definition markedRevBytesLen :: nat where
  "markedRevBytesLen = revBytesLen + 1"

definition markBytePosition :: nat where
  "markBytePosition = markedRevBytesLen - 1"

definition markTombstone :: byte where
  "markTombstone = 0x74"

definition restoreChunkKeys :: nat where
  "restoreChunkKeys = 10000"

definition MaxInt64 :: int64 where
  "MaxInt64 = 0x7FFFFFFFFFFFFFFF"

record revision =
  main :: int64
  sub :: int64

text \<open>\<^verbatim>\<open>binary.BigEndian.PutUint64\<close> and \<^verbatim>\<open>binary.BigEndian.Uint64\<close> of the Go library.\<close>

definition PutUint64 :: "uint64 \<Rightarrow> bytes" where
  "PutUint64 v = [ucast (drop_bit 56 v), ucast (drop_bit 48 v), ucast (drop_bit 40 v),
     ucast (drop_bit 32 v), ucast (drop_bit 24 v), ucast (drop_bit 16 v),
     ucast (drop_bit 8 v), ucast v]"

definition Uint64 :: "bytes \<Rightarrow> uint64" where
  "Uint64 bs = ucast (bs ! 7) OR push_bit 8 (ucast (bs ! 6)) OR push_bit 16 (ucast (bs ! 5))
     OR push_bit 24 (ucast (bs ! 4)) OR push_bit 32 (ucast (bs ! 3))
     OR push_bit 40 (ucast (bs ! 2)) OR push_bit 48 (ucast (bs ! 1))
     OR push_bit 56 (ucast (bs ! 0))"

text \<open>
  Modelled from the spec: \<^verbatim>\<open>newRevBytes\<close>, \<^verbatim>\<open>revToBytes\<close> and \<^verbatim>\<open>bytesToRev\<close> of
  \<^verbatim>\<open>revision.go\<close>, which is not among the sources. The spec encodes the pair as 16 bytes
  big-endian, \<open>main\<close> first. Go writes into a buffer passed in; here the encoding is
  returned. Decoding a slice shorter than a revision is an out-of-range read, which is
  the value \<open>None\<close>.
\<close>

definition newRevBytes :: bytes where
  "newRevBytes = replicate revBytesLen 0"

definition revToBytes :: "revision \<Rightarrow> bytes" where
  "revToBytes r = PutUint64 (main r) @ PutUint64 (sub r)"

definition bytesToRev :: "bytes \<Rightarrow> revision option" where
  "bytesToRev bs =
     (if length bs < revBytesLen then None
      else Some \<lparr>main = Uint64 (take 8 bs), sub = Uint64 (take 8 (drop 8 bs))\<rparr>)"

definition appendMarkTombstone :: "bytes \<Rightarrow> bytes option" where
  "appendMarkTombstone bs = (if length bs \<noteq> revBytesLen then None else Some (bs @ [markTombstone]))"

definition isTombstone :: "bytes \<Rightarrow> bool" where
  "isTombstone bs \<longleftrightarrow> length bs = markedRevBytesLen \<and> bs ! markBytePosition = markTombstone"

definition revBytesRange :: "revision \<Rightarrow> bytes \<times> bytes" where
  "revBytesRange r = (revToBytes r, revToBytes \<lparr>main = main r, sub = sub r + 1\<rparr>)"

text \<open>The number a byte string denotes when read big-endian.\<close>

fun be_nat :: "bytes \<Rightarrow> nat" where
  "be_nat [] = 0"
| "be_nat (x # xs) = unat x * 256 ^ length xs + be_nat xs"

section \<open>The backend\<close>

text \<open>
  Modelled from the spec: the package \<^verbatim>\<open>mvcc/backend\<close> is not among the sources. Section 4.1
  of the spec gives it named buckets of byte-keyed rows kept in ascending key order, one
  batch transaction in which writes are staged, and \<^verbatim>\<open>ForceCommit\<close>, which makes the staged
  rows durable. \<^verbatim>\<open>UnsafeRange\<close> with no end key is a point lookup at the start key; with
  an end key it returns the rows from the start key up to, not including, the end key, in
  ascending order and at most \<open>limit\<close> of them (the store passes a positive limit whenever
  it passes an end key). A bucket that was never written is the empty list of rows.
\<close>

type_synonym bucket = "(bytes \<times> bytes) list"

record backend =
  batch :: "bytes \<Rightarrow> bucket"
  durable :: "bytes \<Rightarrow> bucket"

fun put_row :: "bytes \<Rightarrow> bytes \<Rightarrow> bucket \<Rightarrow> bucket" where
  "put_row k v [] = [(k, v)]"
| "put_row k v ((k', v') # rows) =
     (if k < k' then (k, v) # (k', v') # rows
      else if k = k' then (k, v) # rows
      else (k', v') # put_row k v rows)"


definition UnsafePut :: "bytes \<Rightarrow> bytes \<Rightarrow> bytes \<Rightarrow> backend \<Rightarrow> backend" where
  "UnsafePut name k v be = be\<lparr>batch := (batch be)(name := put_row k v (batch be name))\<rparr>"

definition UnsafeRange :: "backend \<Rightarrow> bytes \<Rightarrow> bytes \<Rightarrow> bytes option \<Rightarrow> nat \<Rightarrow> bucket" where
  "UnsafeRange be name startKey endKey limit =
     (case endKey of
        None \<Rightarrow> filter (\<lambda>row. fst row = startKey) (batch be name)
      | Some e \<Rightarrow> take limit (filter (\<lambda>row. startKey \<le> fst row \<and> fst row < e) (batch be name)))"

definition ForceCommit :: "backend \<Rightarrow> backend" where
  "ForceCommit be = be\<lparr>durable := batch be\<rparr>"

text \<open>A backend in which nothing was ever written.\<close>

definition empty_backend :: backend where
  "empty_backend = \<lparr>batch = (\<lambda>name. []), durable = (\<lambda>name. [])\<rparr>"

section \<open>Key index, scheduler and lessor\<close>

text \<open>
  \<^verbatim>\<open>key_index.go\<close>, \<^verbatim>\<open>index.go\<close>, \<^verbatim>\<open>pkg/schedule\<close> and \<^verbatim>\<open>lease\<close> are not among the
  sources, and the spec does not describe \<^verbatim>\<open>keyIndex.restore\<close>. Each of these objects is
  therefore represented by the calls the store has made on it, in order: a key-index
  record by its key and the methods applied to it, the tree index by the records inserted
  and the compactions run, the scheduler by the queue of jobs submitted, the lessor by the
  leases attached. What \<^verbatim>\<open>treeIndex.Compact\<close> returns is a function of the revision and of
  the index it is run on, and is kept as that pair.
\<close>

datatype ki_call =
    Ki_restore revision revision int64
  | Ki_put int64 int64
  | Ki_tombstone int64 int64

record keyIndex =
  key :: bytes
  calls :: "ki_call list"

definition keyIndex_restore :: "revision \<Rightarrow> revision \<Rightarrow> int64 \<Rightarrow> keyIndex \<Rightarrow> keyIndex" where
  "keyIndex_restore created modified ver ki = ki\<lparr>calls := calls ki @ [Ki_restore created modified ver]\<rparr>"

definition keyIndex_put :: "int64 \<Rightarrow> int64 \<Rightarrow> keyIndex \<Rightarrow> keyIndex" where
  "keyIndex_put m sb ki = ki\<lparr>calls := calls ki @ [Ki_put m sb]\<rparr>"

definition keyIndex_tombstone :: "int64 \<Rightarrow> int64 \<Rightarrow> keyIndex \<Rightarrow> keyIndex" where
  "keyIndex_tombstone m sb ki = ki\<lparr>calls := calls ki @ [Ki_tombstone m sb]\<rparr>"

datatype index_call = Idx_Insert keyIndex | Idx_Compact int64

type_synonym index = "index_call list"

datatype keep = Keep int64 index

definition newTreeIndex :: index where
  "newTreeIndex = []"

definition index_Insert :: "keyIndex \<Rightarrow> index \<Rightarrow> index" where
  "index_Insert ki idx = idx @ [Idx_Insert ki]"

definition index_Compact :: "int64 \<Rightarrow> index \<Rightarrow> keep \<times> index" where
  "index_Compact r idx = (Keep r idx, idx @ [Idx_Compact r])"

type_synonym chan = nat

text \<open>
  The two closures that \<^verbatim>\<open>Compact\<close> hands to the scheduler: \<open>BarrierJob ch\<close> is
  \<^verbatim>\<open>func(ctx) { s.compactBarrier(ctx, ch) }\<close> and \<open>CompactJob rev keep ch\<close> is the job
  \<^verbatim>\<open>j\<close> that sweeps the backend with \<^verbatim>\<open>scheduleCompaction(rev, keep)\<close>.
\<close>

datatype job = BarrierJob chan | CompactJob int64 keep chan

type_synonym lessor = "(int64 \<times> bytes) list"

text \<open>
  The effects of the store on its collaborators and on its two revision fields, in program
  order.
\<close>

datatype effect =
    TxLock | TxUnlock
  | TxCreateBucket bytes
  | TxPut bytes bytes bytes
  | BackendForceCommit
  | IndexInsert keyIndex
  | IndexCompact int64
  | SchedSchedule job
  | SchedStop
  | LessorAttach int64 bytes
  | SetCurrentRev int64
  | SetCompactMainRev int64
  | CloseChan chan

section \<open>The store\<close>

text \<open>
  A \<^verbatim>\<open>ConsistentIndexGetter\<close> belongs to the server; what it returns changes from call to
  call. It is the sequence of the values its successive calls return, and the store counts
  the calls it has made (\<open>ig_calls\<close>). Channels are numbered in the order in which
  \<^verbatim>\<open>make\<close> creates them (\<open>nchan\<close> is the next number), \<open>closed\<close> holds the closed ones, and
  \<open>trace\<close> is the list of effects so far. These four fields belong to the model, the
  others are those of the Go struct.

  The mutex \<^verbatim>\<open>mu\<close> is the boolean that says whether it is write-locked. The model follows
  one goroutine, so a mutex that is locked is held by the caller itself. \<^verbatim>\<open>revMu\<close> is taken
  by \<^verbatim>\<open>Compact\<close> only, after \<^verbatim>\<open>mu\<close> and for the same stretch, and is left out.
\<close>

type_synonym ConsistentIndexGetter = "nat \<Rightarrow> uint64"

record store =
  consistentIndex :: uint64
  mu :: bool
  ig :: "ConsistentIndexGetter option"
  b :: backend
  kvindex :: index
  le :: "lessor option"
  currentRev :: int64
  compactMainRev :: int64
  bytesBuf8 :: bytes
  fifoSched :: "job list"
  stopc :: chan
  ig_calls :: nat
  nchan :: nat
  closed :: "chan set"
  trace :: "effect list"

definition emit :: "effect \<Rightarrow> store \<Rightarrow> store" where
  "emit e s = s\<lparr>trace := trace s @ [e]\<rparr>"

text \<open>
  \<^verbatim>\<open>s.mu.Lock()\<close> and \<^verbatim>\<open>s.mu.Unlock()\<close>. A \<^verbatim>\<open>sync.RWMutex\<close> is not re-entrant:
  \<^verbatim>\<open>Lock\<close> on a mutex that is locked waits until it is unlocked. When the caller holds it
  itself nobody unlocks it, the wait has no end, and the call does not return: \<open>None\<close>.
\<close>

definition mu_Lock :: "store \<Rightarrow> store option" where
  "mu_Lock s = (if mu s then None else Some (s\<lparr>mu := True\<rparr>))"

definition mu_Unlock :: "store \<Rightarrow> store" where
  "mu_Unlock s = s\<lparr>mu := False\<rparr>"

text \<open>
  A call of a method that starts with \<^verbatim>\<open>s.mu.Lock()\<close> and \<^verbatim>\<open>defer s.mu.Unlock()\<close>, given
  what the method does in between. The definitions \<open>Compact\<close> and \<open>Commit\<close> below, and the
  first branch of \<open>compactBarrier\<close>, are what the Go functions do between the two; the
  call \<^verbatim>\<open>s.Compact(rev)\<close> is \<open>locked (Compact rev)\<close>.
\<close>

definition locked :: "(store \<Rightarrow> 'a \<times> store) \<Rightarrow> store \<Rightarrow> ('a \<times> store) option" where
  "locked body s =
     (case mu_Lock s of
        None \<Rightarrow> None
      | Some s1 \<Rightarrow> (case body s1 of (res, s2) \<Rightarrow> Some (res, mu_Unlock s2)))"

definition make_chan :: "store \<Rightarrow> chan \<times> store" where
  "make_chan s = (nchan s, s\<lparr>nchan := Suc (nchan s)\<rparr>)"

definition close_chan :: "chan \<Rightarrow> store \<Rightarrow> store" where
  "close_chan ch s = emit (CloseChan ch) (s\<lparr>closed := insert ch (closed s)\<rparr>)"

definition tx_Lock :: "store \<Rightarrow> store" where
  "tx_Lock s = emit TxLock s"

definition tx_Unlock :: "store \<Rightarrow> store" where
  "tx_Unlock s = emit TxUnlock s"


definition tx_UnsafePut :: "bytes \<Rightarrow> bytes \<Rightarrow> bytes \<Rightarrow> store \<Rightarrow> store" where
  "tx_UnsafePut name k v s = emit (TxPut name k v) (s\<lparr>b := UnsafePut name k v (b s)\<rparr>)"

definition b_ForceCommit :: "store \<Rightarrow> store" where
  "b_ForceCommit s = emit BackendForceCommit (s\<lparr>b := ForceCommit (b s)\<rparr>)"

definition Schedule :: "job \<Rightarrow> store \<Rightarrow> store" where
  "Schedule j s = emit (SchedSchedule j) (s\<lparr>fifoSched := fifoSched s @ [j]\<rparr>)"

definition set_currentRev :: "int64 \<Rightarrow> store \<Rightarrow> store" where
  "set_currentRev r s = emit (SetCurrentRev r) (s\<lparr>currentRev := r\<rparr>)"

definition set_compactMainRev :: "int64 \<Rightarrow> store \<Rightarrow> store" where
  "set_compactMainRev r s = emit (SetCompactMainRev r) (s\<lparr>compactMainRev := r\<rparr>)"

text \<open>
  A context is \<open>None\<close> for Go's \<^verbatim>\<open>nil\<close> and otherwise \<open>Some e\<close>, where \<open>e\<close> says
  whether \<^verbatim>\<open>ctx.Err()\<close> is non-nil.
\<close>

type_synonym ctx = "bool option"

definition compactBarrier :: "ctx \<Rightarrow> chan \<Rightarrow> store \<Rightarrow> store" where
  "compactBarrier c ch s =
     (if c = None \<or> c = Some True then
        (if stopc s \<in> closed s then s else Schedule (BarrierJob ch) s)
      else close_chan ch s)"

text \<open>
  Running a scheduled job under a context. \<^verbatim>\<open>scheduleCompaction\<close> lives in
  \<^verbatim>\<open>kvstore_compaction.go\<close>, which is not among the sources; it is the parameter \<open>sc\<close>.
\<close>

fun run_job :: "(int64 \<Rightarrow> keep \<Rightarrow> store \<Rightarrow> bool \<times> store) \<Rightarrow> bool \<Rightarrow> job \<Rightarrow> store \<Rightarrow> store" where
  "run_job sc cancelled (BarrierJob ch) s = compactBarrier (Some cancelled) ch s"
| "run_job sc cancelled (CompactJob r kp ch) s =
     (if cancelled then compactBarrier (Some cancelled) ch s
      else case sc r kp s of
             (False, s') \<Rightarrow> compactBarrier None ch s'
           | (True, s') \<Rightarrow> close_chan ch s')"

definition Compact :: "int64 \<Rightarrow> store \<Rightarrow> (chan option \<times> error option) \<times> store" where
  "Compact r s =
     (if r \<le>s compactMainRev s then
        (let (ch, s1) = make_chan s;
             s2 = Schedule (BarrierJob ch) s1
         in ((Some ch, Some ErrCompacted), s2))
      else if currentRev s <s r then ((None, Some ErrFutureRev), s)
      else
        (let s1 = set_compactMainRev r s;
             rbytes = revToBytes \<lparr>main = r, sub = 0\<rparr>;
             s2 = tx_Lock s1;
             s3 = tx_UnsafePut metaBucketName scheduledCompactKeyName rbytes s2;
             s4 = tx_Unlock s3;
             s5 = b_ForceCommit s4;
             (kp, idx) = index_Compact r (kvindex s5);
             s6 = emit (IndexCompact r) (s5\<lparr>kvindex := idx\<rparr>);
             (ch, s7) = make_chan s6;
             s8 = Schedule (CompactJob r kp ch) s7
         in ((Some ch, None), s8)))"

definition saveIndex :: "store \<Rightarrow> store" where
  "saveIndex s =
     (case ig s of
        None \<Rightarrow> s
      | Some g \<Rightarrow>
          (let ci = g (ig_calls s);
               s1 = s\<lparr>ig_calls := Suc (ig_calls s), bytesBuf8 := PutUint64 ci\<rparr>;
               s2 = tx_UnsafePut metaBucketName consistentIndexKeyName (bytesBuf8 s1) s1
           in s2\<lparr>consistentIndex := ci\<rparr>))"

definition ConsistentIndex :: "store \<Rightarrow> abort + uint64 \<times> store" where
  "ConsistentIndex s =
     (if 0 < consistentIndex s then Inr (consistentIndex s, s)
      else
        (let s1 = tx_Lock s in
         case UnsafeRange (b s1) metaBucketName consistentIndexKeyName None 0 of
           [] \<Rightarrow> Inr (0, tx_Unlock s1)
         | row # _ \<Rightarrow>
             if length (snd row) < 8 then Inl IndexOutOfRange
             else (let v = Uint64 (snd row) in Inr (v, tx_Unlock (s1\<lparr>consistentIndex := v\<rparr>)))))"

definition Commit :: "store \<Rightarrow> store" where
  "Commit s =
     (let s1 = tx_Lock s;
          s2 = saveIndex s1;
          s3 = tx_Unlock s2
      in b_ForceCommit s3)"

section \<open>Recovery\<close>

text \<open>
  Modelled from the spec: the type \<^verbatim>\<open>mvccpb.KeyValue\<close> and \<^verbatim>\<open>lease.NoLease\<close>, whose
  packages are not among the sources. The value stored under a revision key is a
  serialized record with the fields the spec lists, and the lease identifier 0 stands for
  no lease. \<^verbatim>\<open>Unmarshal\<close> is the parameter \<open>um\<close> of the functions that decode a row
  (\<open>None\<close> when the bytes do not parse).
\<close>

record KeyValue =
  Key :: bytes
  CreateRevision :: int64
  ModRevision :: int64
  Version :: int64
  Value :: bytes
  Lease :: int64

definition NoLease :: int64 where
  "NoLease = 0"

text \<open>A loop that stops at the first failure.\<close>

fun foldE :: "('a \<Rightarrow> 's \<Rightarrow> abort + 's) \<Rightarrow> 'a list \<Rightarrow> 's \<Rightarrow> abort + 's" where
  "foldE f [] st = Inr st"
| "foldE f (x # xs) st = (case f x st of Inl e \<Rightarrow> Inl e | Inr st' \<Rightarrow> foldE f xs st')"

text \<open>
  Go's maps \<^verbatim>\<open>unordered\<close> and \<^verbatim>\<open>keyToLease\<close> are association lists with one entry for
  each key, in the order in which the keys were first stored. One pass of the loop of
  \<^verbatim>\<open>restoreChunk\<close>, on the row \<open>(k, v)\<close>: the slice \<^verbatim>\<open>key[:revBytesLen]\<close> of a key that is
  too short is an out-of-range read.
\<close>

type_synonym unordered = "(bytes \<times> keyIndex) list"
type_synonym keyToLease = "(bytes \<times> int64) list"

definition restoreRow ::
  "(bytes \<Rightarrow> KeyValue option) \<Rightarrow> bytes \<times> bytes \<Rightarrow> unordered \<times> keyToLease \<times> store
     \<Rightarrow> abort + unordered \<times> keyToLease \<times> store" where
  "restoreRow um row st =
     (case st of (un, k2l, s) \<Rightarrow>
      case um (snd row) of
        None \<Rightarrow> Inl CannotUnmarshal
      | Some kv \<Rightarrow>
         (case bytesToRev (take revBytesLen (fst row)) of
            None \<Rightarrow> Inl IndexOutOfRange
          | Some r \<Rightarrow>
             (let s' = set_currentRev (main r) s;
                  kstr = Key kv
              in if isTombstone (fst row) then
                   Inr ((case map_of un kstr of
                           Some ki \<Rightarrow> AList.update kstr (keyIndex_tombstone (main r) (sub r) ki) un
                         | None \<Rightarrow> un),
                        AList.delete kstr k2l, s')
                 else
                   Inr ((case map_of un kstr of
                           Some ki \<Rightarrow> AList.update kstr (keyIndex_put (main r) (sub r) ki) un
                         | None \<Rightarrow>
                             AList.update kstr
                               (keyIndex_restore \<lparr>main = CreateRevision kv, sub = 0\<rparr> r (Version kv)
                                  \<lparr>key = Key kv, calls = []\<rparr>) un),
                        (if Lease kv \<noteq> NoLease then AList.update kstr (Lease kv) k2l
                         else AList.delete kstr k2l),
                        s'))))"

definition restoreChunk ::
  "(bytes \<Rightarrow> KeyValue option) \<Rightarrow> bucket \<Rightarrow> keyToLease \<Rightarrow> store
     \<Rightarrow> abort + unordered \<times> keyToLease \<times> store" where
  "restoreChunk um rows k2l s = foldE (restoreRow um) rows ([], k2l, s)"

text \<open>
  What \<^verbatim>\<open>restore\<close> does with one chunk: it builds the chunk's map and sends it on
  \<^verbatim>\<open>unorderedc\<close>, and the receiving goroutine inserts every record of the map into the tree
  index. Go leaves the order of a map's iteration open; the model takes the order of the
  association list.
\<close>

definition insert_unordered :: "unordered \<Rightarrow> store \<Rightarrow> store" where
  "insert_unordered un s =
     fold (\<lambda>kv s'. emit (IndexInsert (snd kv)) (s'\<lparr>kvindex := index_Insert (snd kv) (kvindex s')\<rparr>)) un s"

definition restore_send ::
  "(bytes \<Rightarrow> KeyValue option) \<Rightarrow> bucket \<Rightarrow> keyToLease \<times> store \<Rightarrow> abort + keyToLease \<times> store" where
  "restore_send um rows st =
     (case restoreChunk um rows (fst st) (snd st) of
        Inl e \<Rightarrow> Inl e
      | Inr (un, k2l, s) \<Rightarrow> Inr (k2l, insert_unordered un s))"

text \<open>
  The scanning loop of \<^verbatim>\<open>restore\<close>, for any way \<open>f\<close> of consuming a chunk. The loop need
  not end on every backend: a run that goes on forever is the value \<open>None\<close>.
\<close>

partial_function (option) restore_scan ::
  "(bucket \<Rightarrow> 'st \<Rightarrow> abort + 'st) \<Rightarrow> backend \<Rightarrow> bytes \<Rightarrow> bytes \<Rightarrow> 'st \<Rightarrow> (abort + 'st) option" where
  "restore_scan f be mn mx st =
     (let rows = UnsafeRange be keyBucketName mn (Some mx) restoreChunkKeys in
      if rows = [] then Some (Inr st)
      else case f rows st of
             Inl e \<Rightarrow> Some (Inl e)
           | Inr st' \<Rightarrow>
               if length rows < restoreChunkKeys then Some (Inr st')
               else (case bytesToRev (take revBytesLen (fst (last rows))) of
                       None \<Rightarrow> Some (Inl IndexOutOfRange)
                     | Some newMin \<Rightarrow>
                         restore_scan f be (revToBytes (newMin\<lparr>sub := sub newMin + 1\<rparr>)) mx st'))"

text \<open>Reading the main revision stored under a name of the meta bucket.\<close>

definition meta_main :: "backend \<Rightarrow> bytes \<Rightarrow> abort + int64 option" where
  "meta_main be name =
     (case UnsafeRange be metaBucketName name None 0 of
        [] \<Rightarrow> Inr None
      | row # _ \<Rightarrow> (case bytesToRev (snd row) of None \<Rightarrow> Inl IndexOutOfRange | Some r \<Rightarrow> Inr (Some (main r))))"

definition attach_leases :: "keyToLease \<Rightarrow> store \<Rightarrow> abort + store" where
  "attach_leases k2l s =
     foldE (\<lambda>kl s'. case le s' of
                       None \<Rightarrow> Inl NoLessor
                     | Some l \<Rightarrow> Inr (emit (LessorAttach (snd kl) (fst kl)) (s'\<lparr>le := Some (l @ [(snd kl, fst kl)])\<rparr>)))
       k2l s"

text \<open>
  \<^verbatim>\<open>restore\<close> up to and including \<^verbatim>\<open>tx.Unlock()\<close>: the result is the store together
  with the final value of the local variable \<^verbatim>\<open>scheduledCompact\<close>.
\<close>

definition restore_index :: "(bytes \<Rightarrow> KeyValue option) \<Rightarrow> store \<Rightarrow> (abort + store \<times> int64) option" where
  "restore_index um s =
     (let mn = revToBytes \<lparr>main = 1, sub = 0\<rparr>;
          mx = revToBytes \<lparr>main = MaxInt64, sub = MaxInt64\<rparr>;
          s1 = tx_Lock s
      in case meta_main (b s1) finishedCompactKeyName of
           Inl e \<Rightarrow> Some (Inl e)
         | Inr fin \<Rightarrow>
            (let s2 = (case fin of None \<Rightarrow> s1 | Some m \<Rightarrow> set_compactMainRev m s1) in
             case meta_main (b s2) scheduledCompactKeyName of
               Inl e \<Rightarrow> Some (Inl e)
             | Inr sch \<Rightarrow>
                (let scheduledCompact = (case sch of None \<Rightarrow> 0 | Some m \<Rightarrow> m) in
                 case restore_scan (restore_send um) (b s2) mn mx ([], s2) of
                   None \<Rightarrow> None
                 | Some (Inl e) \<Rightarrow> Some (Inl e)
                 | Some (Inr (k2l, s3)) \<Rightarrow>
                    (let s4 = (if currentRev s3 <s compactMainRev s3
                               then set_currentRev (compactMainRev s3) s3 else s3);
                         scheduledCompact' =
                           (if scheduledCompact \<le>s compactMainRev s4 then 0 else scheduledCompact)
                     in case attach_leases k2l s4 of
                          Inl e \<Rightarrow> Some (Inl e)
                        | Inr s5 \<Rightarrow> Some (Inr (tx_Unlock s5, scheduledCompact'))))))"

definition restore :: "(bytes \<Rightarrow> KeyValue option) \<Rightarrow> store \<Rightarrow> (abort + store) option" where
  "restore um s =
     (case restore_index um s of
        None \<Rightarrow> None
      | Some (Inl e) \<Rightarrow> Some (Inl e)
      | Some (Inr (s1, scheduledCompact)) \<Rightarrow>
          if scheduledCompact \<noteq> 0 then
            (case locked (Compact scheduledCompact) s1 of
               None \<Rightarrow> None
             | Some (res, s2) \<Rightarrow> Some (Inr s2))
          else Some (Inr s1))"

text \<open>The struct that \<^verbatim>\<open>NewStore\<close> builds before it touches the backend.\<close>

definition new_store :: "backend \<Rightarrow> lessor option \<Rightarrow> ConsistentIndexGetter option \<Rightarrow> store" where
  "new_store be l g =
     \<lparr>consistentIndex = 0, mu = False, ig = g, b = be, kvindex = newTreeIndex, le = l,
      currentRev = 1, compactMainRev = - 1, bytesBuf8 = replicate 8 0,
      fifoSched = [], stopc = 0, ig_calls = 0, nchan = 1, closed = {}, trace = []\<rparr>"


text \<open>
  \<^verbatim>\<open>Restore\<close> takes \<^verbatim>\<open>mu\<close> and holds it until it returns, so \<^verbatim>\<open>restore\<close> runs with
  \<^verbatim>\<open>mu\<close> locked. It closes \<^verbatim>\<open>stopc\<close>, which panics when the channel is closed already,
  stops the old scheduler and starts with a new, empty one.
\<close>

definition Restore :: "(bytes \<Rightarrow> KeyValue option) \<Rightarrow> backend \<Rightarrow> store \<Rightarrow> (abort + store) option" where
  "Restore um be s =
     (case mu_Lock s of
        None \<Rightarrow> None
      | Some s0 \<Rightarrow>
          if stopc s0 \<in> closed s0 then Some (Inl CloseOfClosedChannel)
          else
            (let s1 = emit SchedStop (close_chan (stopc s0) s0);
                 s2 = s1\<lparr>consistentIndex := 0, b := be, kvindex := newTreeIndex\<rparr>;
                 s3 = set_compactMainRev (- 1) (set_currentRev 1 s2);
                 s4 = s3\<lparr>fifoSched := []\<rparr>;
                 (ch, s5) = make_chan s4;
                 s6 = s5\<lparr>stopc := ch\<rparr>
             in case restore um s6 of
                  None \<Rightarrow> None
                | Some (Inl e) \<Rightarrow> Some (Inl e)
                | Some (Inr s7) \<Rightarrow> Some (Inr (mu_Unlock s7))))"

section \<open>Observations and sample inputs\<close>

text \<open>
  What a restart would find under \<^verbatim>\<open>consistent_index\<close> of the meta bucket: the durable
  entry, decoded.
\<close>

definition persisted_index :: "store \<Rightarrow> uint64 option" where
  "persisted_index s =
     map_option Uint64 (map_of (durable (b s) metaBucketName) consistentIndexKeyName)"


text \<open>The getter whose successive calls return the listed values, the last one for ever.\<close>

definition getter_of :: "uint64 list \<Rightarrow> ConsistentIndexGetter" where
  "getter_of vs n = (if n < length vs then vs ! n else last vs)"

text \<open>A decoder that rejects every value, for stores whose key bucket is empty.\<close>

definition no_unmarshal :: "bytes \<Rightarrow> KeyValue option" where
  "no_unmarshal v = None"

text \<open>
  The revision that \<^verbatim>\<open>restore\<close> and \<^verbatim>\<open>restoreChunk\<close> read off a key of the key bucket: the
  decoding of its first \<open>revBytesLen\<close> bytes.
\<close>

definition key_rev :: "bytes \<Rightarrow> revision" where
  "key_rev k = (case bytesToRev (take revBytesLen k) of Some r \<Rightarrow> r | None \<Rightarrow> \<lparr>main = 0, sub = 0\<rparr>)"

text \<open>The order of revisions: by \<open>main\<close>, then by \<open>sub\<close>, as signed integers.\<close>

definition rev_less :: "revision \<Rightarrow> revision \<Rightarrow> bool" where
  "rev_less r r' \<longleftrightarrow> main r <s main r' \<or> main r = main r' \<and> sub r <s sub r'"

text \<open>
  The keys the store writes into the key bucket, by the on-disk layout of the spec: a
  revision key of 16 bytes or a tombstone key of 17, of a revision with \<open>main \<ge> 1\<close> and
  \<open>sub \<ge> 0\<close> that lies below the exclusive upper bound of the scan,
  \<open>(MaxInt64, MaxInt64)\<close>.
\<close>

definition wf_key :: "bytes \<Rightarrow> bool" where
  "wf_key k \<longleftrightarrow>
     (length k = revBytesLen \<or> length k = markedRevBytesLen)
     \<and> 1 \<le>s main (key_rev k) \<and> 0 \<le>s sub (key_rev k)
     \<and> \<not> (main (key_rev k) = MaxInt64 \<and> sub (key_rev k) = MaxInt64)"

text \<open>
  A key bucket as the store leaves it: every key is one the store writes, and along the
  bucket the revisions ascend strictly (one row for each revision).
\<close>

definition key_bucket_ok :: "bucket \<Rightarrow> bool" where
  "key_bucket_ok rows \<longleftrightarrow>
     list_all (\<lambda>row. wf_key (fst row)) rows
     \<and> sorted_wrt rev_less (map (\<lambda>row. key_rev (fst row)) rows)"

text \<open>
  Cutting a list into consecutive chunks of \<open>n\<close> elements, the last one shorter when the
  length is not a multiple of \<open>n\<close>.
\<close>

function chunked :: "nat \<Rightarrow> 'a list \<Rightarrow> 'a list list" where
  "chunked n xs =
     (if xs = [] then []
      else if n = 0 \<or> length xs < n then [xs]
      else take n xs # chunked n (drop n xs))"
  by pat_completeness auto
termination
  by (relation "measure (\<lambda>(n, xs). length xs)") auto

declare chunked.simps [simp del]

text \<open>The revision at which the next scan starts: \<^verbatim>\<open>newMin.sub++\<close>.\<close>

definition next_rev :: "revision \<Rightarrow> revision" where
  "next_rev r = r\<lparr>sub := sub r + 1\<rparr>"

text \<open>
  A sample decoder and a sample backend: a value is its lease identifier in one byte
  followed by the user key. The key bucket holds a put of the key \<open>a\<close> at revision
  \<open>(2, 0)\<close>, its tombstone at \<open>(3, 0)\<close> and a put of the key \<open>b\<close> at \<open>(4, 0)\<close>.
\<close>

definition plain_kv :: "bytes \<Rightarrow> KeyValue option" where
  "plain_kv v =
     (case v of
        [] \<Rightarrow> None
      | l # k \<Rightarrow> Some \<lparr>Key = k, CreateRevision = 1, ModRevision = 1, Version = 1, Value = [],
                        Lease = ucast l\<rparr>)"

definition sample_rows :: bucket where
  "sample_rows =
     [(revToBytes \<lparr>main = 2, sub = 0\<rparr>, [0, 97]),
      (revToBytes \<lparr>main = 3, sub = 0\<rparr> @ [markTombstone], [0, 97]),
      (revToBytes \<lparr>main = 4, sub = 0\<rparr>, [0, 98])]"

definition sample_backend :: backend where
  "sample_backend =
     \<lparr>batch = (\<lambda>name. if name = keyBucketName then sample_rows else []),
      durable = (\<lambda>name. if name = keyBucketName then sample_rows else [])\<rparr>"

text \<open>
  A consumer of chunks that only counts the rows it is handed, and the backend whose key
  bucket holds the given rows and whose meta bucket is empty.
\<close>

definition count_rows :: "bucket \<Rightarrow> nat \<Rightarrow> abort + nat" where
  "count_rows rows n = Inr (n + length rows)"

definition key_backend :: "bucket \<Rightarrow> backend" where
  "key_backend rows =
     \<lparr>batch = (\<lambda>name. if name = keyBucketName then rows else []),
      durable = (\<lambda>name. if name = keyBucketName then rows else [])\<rparr>"

text \<open>
  Key buckets that hold keys the store never writes. \<open>low_rows\<close> has one row, at the
  revision \<open>(0, 5)\<close>, below the start \<open>(1, 0)\<close> of the scan. \<open>wrap_rows\<close> has
  \<open>restoreChunkKeys\<close> rows of main revision 2, in ascending byte order, the last of them
  with all bits of \<open>sub\<close> set, so that \<^verbatim>\<open>newMin.sub++\<close> wraps around to 0.
\<close>

definition low_rows :: bucket where
  "low_rows = [(revToBytes \<lparr>main = 0, sub = 5\<rparr>, [0, 97])]"

definition wrap_rows :: bucket where
  "wrap_rows =
     map (\<lambda>i. (revToBytes \<lparr>main = 2, sub = of_nat i\<rparr>, [0, 97])) [0..<restoreChunkKeys - 1]
     @ [(revToBytes \<lparr>main = 2, sub = - 1\<rparr>, [0, 97])]"

text \<open>
  A key bucket as the store leaves it that does not fit into one chunk: \<open>restoreChunkKeys + 1\<close>
  rows at the revisions \<open>(2, 0)\<close>, \<open>(3, 0)\<close>, and so on, all of the key \<open>a\<close>, where the
  last row of the first chunk is a tombstone.
\<close>

definition long_row :: "nat \<Rightarrow> bytes \<times> bytes" where
  "long_row i =
     (revToBytes \<lparr>main = of_nat (i + 2), sub = 0\<rparr>
        @ (if Suc i = restoreChunkKeys then [markTombstone] else []),
      [0, 97])"

definition long_rows :: bucket where
  "long_rows = map long_row [0..<Suc restoreChunkKeys]"

text \<open>
  The value of \<open>currentRev\<close> after \<^verbatim>\<open>restoreChunk\<close> has run over some rows: the main
  revision of the last row.
\<close>

definition cur_after :: "bucket \<Rightarrow> int64 \<Rightarrow> int64" where
  "cur_after rows c = (if rows = [] then c else main (key_rev (fst (last rows))))"

text \<open>
  Backends that the store itself produces: what \<^verbatim>\<open>Compact(0)\<close> and \<^verbatim>\<open>Compact(1)\<close> on a
  new store over an empty backend leave behind when the process stops before the sweep
  has run.
\<close>

definition crash0_backend :: backend where
  "crash0_backend = b (snd (Compact 0 (new_store empty_backend None None)))"

definition crash1_backend :: backend where
  "crash1_backend = b (snd (Compact 1 (new_store empty_backend None None)))"

text \<open>
  Modelled from the spec: the end of the sweep, in \<^verbatim>\<open>scheduleCompaction\<close> of
  \<^verbatim>\<open>kvstore_compaction.go\<close>, which is not among the sources. By the spec the sweep, when
  it finishes, writes the revision under \<^verbatim>\<open>finishedCompactRev\<close> of the meta bucket. This is
  the backend after the sweep of \<^verbatim>\<open>Compact(0)\<close> on a new store.
\<close>

definition compacted0_backend :: backend where
  "compacted0_backend =
     ForceCommit (UnsafePut metaBucketName finishedCompactKeyName
       (revToBytes \<lparr>main = 0, sub = 0\<rparr>) crash0_backend)"

text \<open>
  The value of \<open>currentRev\<close> after recovery in the words of the spec: the maximum of the
  largest main revision among the rows of the key bucket and the \<open>compactMainRev\<close> read
  from \<^verbatim>\<open>finishedCompactRev\<close>, and 1 when the bucket is empty and no compaction is recorded.
\<close>

definition claimed_currentRev :: "bucket \<Rightarrow> int64 option \<Rightarrow> int" where
  "claimed_currentRev rows fin =
     (if rows = [] then (case fin of None \<Rightarrow> 1 | Some c \<Rightarrow> sint c)
      else (case fin of
              None \<Rightarrow> Max (set (map (\<lambda>row. sint (main (key_rev (fst row)))) rows))
            | Some c \<Rightarrow> max (Max (set (map (\<lambda>row. sint (main (key_rev (fst row)))) rows))) (sint c)))"

text \<open>
  How \<^verbatim>\<open>restoreChunk\<close> reads a row: as a put of the user key \<open>k\<close>, or as a tombstone of
  it. \<open>tomb_after_put um rows k r\<close> says that \<open>rows\<close> holds a put of \<open>k\<close> and, somewhere
  after it, a tombstone of \<open>k\<close> at the revision \<open>r\<close>. \<open>chunk_inv\<close> is what holds of the map
  \<^verbatim>\<open>unordered\<close> once the rows \<open>seen\<close> have been processed.
\<close>

definition is_put_of :: "(bytes \<Rightarrow> KeyValue option) \<Rightarrow> bytes \<times> bytes \<Rightarrow> bytes \<Rightarrow> bool" where
  "is_put_of um row k \<longleftrightarrow>
     \<not> isTombstone (fst row) \<and> (case um (snd row) of None \<Rightarrow> False | Some kv \<Rightarrow> Key kv = k)"

definition is_tombstone_of :: "(bytes \<Rightarrow> KeyValue option) \<Rightarrow> bytes \<times> bytes \<Rightarrow> bytes \<Rightarrow> bool" where
  "is_tombstone_of um row k \<longleftrightarrow>
     isTombstone (fst row) \<and> (case um (snd row) of None \<Rightarrow> False | Some kv \<Rightarrow> Key kv = k)"

definition tomb_after_put ::
  "(bytes \<Rightarrow> KeyValue option) \<Rightarrow> bucket \<Rightarrow> bytes \<Rightarrow> revision \<Rightarrow> bool" where
  "tomb_after_put um rows k r \<longleftrightarrow>
     (\<exists>xs p ys t zs. rows = xs @ p # ys @ t # zs \<and> is_put_of um p k \<and> is_tombstone_of um t k
        \<and> key_rev (fst t) = r)"

definition chunk_inv :: "(bytes \<Rightarrow> KeyValue option) \<Rightarrow> bucket \<Rightarrow> unordered \<Rightarrow> bool" where
  "chunk_inv um seen un \<longleftrightarrow>
     (\<forall>k ki. map_of un k = Some ki \<longrightarrow>
        (\<exists>p \<in> set seen. is_put_of um p k)
        \<and> (\<forall>m sb. Ki_tombstone m sb \<in> set (calls ki) \<longrightarrow>
              tomb_after_put um seen k \<lparr>main = m, sub = sb\<rparr>))"

text \<open>A chunk that holds nothing but the tombstone of the key \<open>a\<close> at revision \<open>(3, 0)\<close>.\<close>

definition lone_tombstone :: bucket where
  "lone_tombstone = [(revToBytes \<lparr>main = 3, sub = 0\<rparr> @ [markTombstone], [0, 97])]"

section \<open>Facts about the encoding and the backend\<close>

lemma not_sle_iff: "\<not> (x::int64) \<le>s y \<longleftrightarrow> y <s x"
  by (simp add: word_sle_eq word_sless_alt not_le)

lemma not_sless_iff: "\<not> (x::int64) <s y \<longleftrightarrow> y \<le>s x"
  by (simp add: word_sle_eq word_sless_alt not_less)

lemma map_of_put_row: "map_of (put_row k v rows) k = Some v"
  by (induction rows) auto

lemma length_PutUint64: "length (PutUint64 v) = 8"
  by (simp add: PutUint64_def)

lemma length_revToBytes: "length (revToBytes r) = 16"
  by (simp add: revToBytes_def length_PutUint64)

lemma Uint64_PutUint64: "Uint64 (PutUint64 v) = v"
proof (rule bit_word_eqI)
  fix n assume n: "n < LENGTH(64)"
  consider "n < 8" | "8 \<le> n \<and> n < 16" | "16 \<le> n \<and> n < 24" | "24 \<le> n \<and> n < 32"
    | "32 \<le> n \<and> n < 40" | "40 \<le> n \<and> n < 48" | "48 \<le> n \<and> n < 56" | "56 \<le> n \<and> n < 64"
    using n by fastforce
  then show "bit (Uint64 (PutUint64 v)) n = bit v n"
    by cases (auto simp add: Uint64_def PutUint64_def bit_or_iff bit_push_bit_iff
        bit_ucast_iff bit_drop_bit_eq)
qed

lemma bytesToRev_revToBytes: "bytesToRev (revToBytes r) = Some r"
  by (simp add: bytesToRev_def revToBytes_def length_PutUint64 revBytesLen_def Uint64_PutUint64)

lemma nat_digits8:
  fixes n :: nat
  assumes "n < 2 ^ 64"
  shows "(n div 2 ^ 56 mod 256) * 256 ^ 7 + ((n div 2 ^ 48 mod 256) * 256 ^ 6 +
     ((n div 2 ^ 40 mod 256) * 256 ^ 5 + ((n div 2 ^ 32 mod 256) * 256 ^ 4 +
     ((n div 2 ^ 24 mod 256) * 256 ^ 3 + ((n div 2 ^ 16 mod 256) * 256 ^ 2 +
     ((n div 2 ^ 8 mod 256) * 256 + n mod 256)))))) = n"
proof -
  define a1 where "a1 = n div 256"
  define a2 where "a2 = a1 div 256"
  define a3 where "a3 = a2 div 256"
  define a4 where "a4 = a3 div 256"
  define a5 where "a5 = a4 div 256"
  define a6 where "a6 = a5 div 256"
  define a7 where "a7 = a6 div 256"
  have e1: "n div 2 ^ 8 = a1" by (simp add: a1_def)
  have e2: "n div 2 ^ 16 = a2" unfolding a2_def a1_def by (simp add: div_mult2_eq)
  have e3: "n div 2 ^ 24 = a3" unfolding a3_def a2_def a1_def by (simp add: div_mult2_eq)
  have e4: "n div 2 ^ 32 = a4" unfolding a4_def a3_def a2_def a1_def by (simp add: div_mult2_eq)
  have e5: "n div 2 ^ 40 = a5" unfolding a5_def a4_def a3_def a2_def a1_def by (simp add: div_mult2_eq)
  have e6: "n div 2 ^ 48 = a6" unfolding a6_def a5_def a4_def a3_def a2_def a1_def by (simp add: div_mult2_eq)
  have e7: "n div 2 ^ 56 = a7" unfolding a7_def a6_def a5_def a4_def a3_def a2_def a1_def by (simp add: div_mult2_eq)
  have "a7 < 256" using assms e7[symmetric] by (simp add: less_mult_imp_div_less)
  then have m7: "a7 mod 256 = a7" by simp
  have d0: "n = a1 * 256 + n mod 256" by (simp add: a1_def)
  have d1: "a1 = a2 * 256 + a1 mod 256" by (simp add: a2_def)
  have d2: "a2 = a3 * 256 + a2 mod 256" by (simp add: a3_def)
  have d3: "a3 = a4 * 256 + a3 mod 256" by (simp add: a4_def)
  have d4: "a4 = a5 * 256 + a4 mod 256" by (simp add: a5_def)
  have d5: "a5 = a6 * 256 + a5 mod 256" by (simp add: a6_def)
  have d6: "a6 = a7 * 256 + a6 mod 256" by (simp add: a7_def)
  show ?thesis
    unfolding e1 e2 e3 e4 e5 e6 e7 m7
    using d0 d1 d2 d3 d4 d5 d6 by simp
qed

lemma be_nat_PutUint64: "be_nat (PutUint64 v) = unat v"
proof -
  have "unat v < 2 ^ LENGTH(64)" by (rule unsigned_less)
  then have "unat v < 2 ^ 64" by simp
  from nat_digits8[OF this] show ?thesis
  unfolding PutUint64_def
  by (simp add: unsigned_ucast_eq unat_drop_bit_eq take_bit_eq_mod drop_bit_eq_div
      unat_div_distrib)
qed

lemma sint_nonneg_uint:
  fixes a :: "64 word"
  assumes "0 \<le>s a"
  shows "sint a = uint a"
proof -
  have p: "0 \<le> sint a" using assms by (simp add: word_sle_eq)
  have s: "sint a = signed_take_bit 63 (uint a)" by (simp add: sint_uint)
  from p s have nb: "\<not> bit (uint a) 63" by simp
  have "take_bit (Suc 63) (uint a) = uint a"
    using take_bit_word_eq_self[of 64 a] by (simp add: take_bit_int_eq_self_iff uint_lt2p[of a, simplified])
  then have "take_bit 63 (uint a) = uint a"
    using nb take_bit_Suc_from_most[of 63 "uint a"] by simp
  with s nb show ?thesis by (simp add: signed_take_bit_eq_if_positive)
qed

lemma sless_nonneg_iff:
  fixes a c :: "64 word"
  assumes "0 \<le>s a" "0 \<le>s c"
  shows "a <s c \<longleftrightarrow> a < c" "a \<le>s c \<longleftrightarrow> a \<le> c"
  using sint_nonneg_uint[OF assms(1)] sint_nonneg_uint[OF assms(2)]
  by (simp_all add: word_sless_alt word_sle_eq word_less_def word_le_def)

lemma nonneg_le_max:
  fixes a :: "64 word"
  assumes "0 \<le>s a"
  shows "a \<le> 0x7FFFFFFFFFFFFFFF"
proof -
  have "sint a < 2 ^ 63" using sint_lt[of a] by simp
  then have "uint a < 2 ^ 63" using sint_nonneg_uint[OF assms] by simp
  then show ?thesis by (simp add: word_le_def)
qed

lemma one_sle_iff:
  fixes a :: "64 word"
  assumes "1 \<le>s a"
  shows "0 \<le>s a" "1 \<le> a"
proof -
  from assms show z: "0 \<le>s a" by (simp add: word_sle_eq)
  from assms sint_nonneg_uint[OF z] show "1 \<le> a" by (simp add: word_sle_eq word_le_def)
qed

lemma be_nat_lt: "be_nat xs < 256 ^ length xs"
proof (induction xs)
  case Nil then show ?case by simp
next
  case (Cons x xs)
  define c :: nat where "c = 256 ^ length xs"
  have "unat x < 2 ^ LENGTH(8)" by (rule unsigned_less)
  then have "unat x \<le> 255" by simp
  then have "unat x * c \<le> 255 * c" by (rule mult_le_mono1)
  moreover have "be_nat xs < c" using Cons by (simp add: c_def)
  ultimately have "unat x * c + be_nat xs < 256 * c" by linarith
  then show ?case by (simp add: c_def)
qed

lemma be_nat_less_iff:
  "length xs = length ys \<Longrightarrow> xs < ys \<longleftrightarrow> be_nat xs < be_nat ys"
proof (induction xs ys rule: list_induct2)
  case Nil then show ?case by simp
next
  case (Cons x xs y ys)
  have bx: "be_nat xs < 256 ^ length ys" using be_nat_lt[of xs] Cons.hyps by simp
  have by': "be_nat ys < 256 ^ length ys" using be_nat_lt[of ys] by simp
  show ?case
  proof (cases "x = y")
    case True
    then show ?thesis using Cons by simp
  next
    case False
    show ?thesis
    proof (cases "x < y")
      case True
      then have "unat x + 1 \<le> unat y" by (simp add: word_less_nat_alt)
      then have "(unat x + 1) * 256 ^ length ys \<le> unat y * 256 ^ length ys"
        by (rule mult_le_mono1)
      then have "be_nat (x # xs) < be_nat (y # ys)" using bx Cons.hyps by (simp add: algebra_simps)
      with True show ?thesis by simp
    next
      case F2: False
      with False have "y < x" by simp
      then have "unat y + 1 \<le> unat x" by (simp add: word_less_nat_alt)
      then have "(unat y + 1) * 256 ^ length ys \<le> unat x * 256 ^ length ys"
        by (rule mult_le_mono1)
      then have "be_nat (y # ys) < be_nat (x # xs)" using by' Cons.hyps by (simp add: algebra_simps)
      with F2 False show ?thesis by simp
    qed
  qed
qed

lemma PutUint64_less_iff: "PutUint64 v < PutUint64 w \<longleftrightarrow> v < w"
  using be_nat_less_iff[of "PutUint64 v" "PutUint64 w"]
  by (simp add: be_nat_PutUint64 word_less_nat_alt length_PutUint64)

lemma PutUint64_inj: "PutUint64 v = PutUint64 w \<longleftrightarrow> v = w"
  by (metis Uint64_PutUint64)

lemma append_less_eqlen:
  "length xs = length xs' \<Longrightarrow>
     (xs @ ys < xs' @ ys') \<longleftrightarrow> (xs < xs' \<or> xs = xs' \<and> ys < ys')"
  for xs :: "('a::linorder) list"
  by (induction xs xs' rule: list_induct2) auto

lemma prefix_le_append: "xs \<le> xs @ ys" for xs :: "('a::linorder) list"
  by (induction xs) auto

lemma revToBytes_less_iff:
  "revToBytes r < revToBytes r' \<longleftrightarrow> main r < main r' \<or> main r = main r' \<and> sub r < sub r'"
  by (simp add: revToBytes_def append_less_eqlen length_PutUint64 PutUint64_less_iff PutUint64_inj)

lemma revToBytes_inj: "revToBytes r = revToBytes r' \<longleftrightarrow> r = r'"
  by (metis bytesToRev_revToBytes option.inject)

lemma revToBytes_le_iff:
  "revToBytes r \<le> revToBytes r' \<longleftrightarrow> main r < main r' \<or> main r = main r' \<and> sub r \<le> sub r'"
proof -
  have "revToBytes r \<le> revToBytes r' \<longleftrightarrow> revToBytes r < revToBytes r' \<or> revToBytes r = revToBytes r'"
    by (rule le_less)
  also have "\<dots> \<longleftrightarrow> (main r < main r' \<or> main r = main r' \<and> sub r < sub r') \<or> r = r'"
    by (simp add: revToBytes_less_iff revToBytes_inj)
  also have "\<dots> \<longleftrightarrow> main r < main r' \<or> main r = main r' \<and> sub r \<le> sub r'"
    by (auto simp: le_less)
  finally show ?thesis .
qed

lemma PutUint64_onto:
  assumes "length bs = 8"
  shows "\<exists>v. bs = PutUint64 v"
proof -
  let ?S = "{xs :: bytes. length xs = 8}"
  have f: "finite ?S" using finite_lists_length_eq[of "UNIV :: byte set" 8] by simp
  have c: "card ?S = 256 ^ 8"
    using card_lists_length_eq[of "UNIV :: byte set" 8] by (simp add: card_word)
  have i: "inj PutUint64" by (rule inj_on_inverseI[where g = Uint64]) (simp add: Uint64_PutUint64)
  have "card (range PutUint64) = card (UNIV :: uint64 set)" by (rule card_image[OF i])
  also have "\<dots> = 2 ^ 64" by (simp add: card_word)
  finally have ci: "card (range PutUint64) = card ?S" by (simp add: c)
  have "range PutUint64 \<subseteq> ?S" by (auto simp: length_PutUint64)
  from card_subset_eq[OF f this ci] assms show ?thesis by (auto simp: image_def)
qed

lemma PutUint64_Uint64:
  assumes "length bs = 8"
  shows "PutUint64 (Uint64 bs) = bs"
proof -
  from PutUint64_onto[OF assms] obtain v where "bs = PutUint64 v" ..
  then show ?thesis by (simp add: Uint64_PutUint64)
qed

lemma key_rev_take:
  assumes "revBytesLen \<le> length k"
  shows "bytesToRev (take revBytesLen k) = Some (key_rev k)"
    and "take revBytesLen k = revToBytes (key_rev k)"
proof -
  have l: "length (take revBytesLen k) = 16" using assms by (simp add: revBytesLen_def)
  then show s: "bytesToRev (take revBytesLen k) = Some (key_rev k)"
    by (simp add: key_rev_def bytesToRev_def revBytesLen_def)
  have "revToBytes (key_rev k)
      = PutUint64 (Uint64 (take 8 (take revBytesLen k)))
        @ PutUint64 (Uint64 (take 8 (drop 8 (take revBytesLen k))))"
    using l by (simp add: key_rev_def bytesToRev_def revBytesLen_def revToBytes_def)
  also have "\<dots> = take 8 (take revBytesLen k) @ take 8 (drop 8 (take revBytesLen k))"
    using l by (simp add: PutUint64_Uint64)
  also have "\<dots> = take 8 (take revBytesLen k) @ drop 8 (take revBytesLen k)"
    using l by simp
  also have "\<dots> = take revBytesLen k" by (rule append_take_drop_id)
  finally show "take revBytesLen k = revToBytes (key_rev k)" by simp
qed

lemma wf_key_split:
  assumes "wf_key k"
  shows "k = revToBytes (key_rev k) @ drop revBytesLen k"
proof -
  from assms have "revBytesLen \<le> length k"
    by (auto simp: wf_key_def markedRevBytesLen_def)
  from key_rev_take(2)[OF this] show ?thesis
    by (metis append_take_drop_id)
qed

lemma wf_key_unsigned:
  assumes "wf_key k"
  shows "1 \<le> main (key_rev k)" "main (key_rev k) \<le> MaxInt64" "sub (key_rev k) \<le> MaxInt64"
    "0 \<le>s main (key_rev k)" "0 \<le>s sub (key_rev k)"
    "\<not> (main (key_rev k) = MaxInt64 \<and> sub (key_rev k) = MaxInt64)"
  using assms one_sle_iff[of "main (key_rev k)"] nonneg_le_max[of "main (key_rev k)"]
    nonneg_le_max[of "sub (key_rev k)"]
  by (simp_all add: wf_key_def MaxInt64_def)

lemma rev_less_unsigned:
  assumes "wf_key k" "wf_key k'" "rev_less (key_rev k) (key_rev k')"
  shows "main (key_rev k) < main (key_rev k')
     \<or> main (key_rev k) = main (key_rev k') \<and> sub (key_rev k) < sub (key_rev k')"
  using assms(3) wf_key_unsigned(4,5)[OF assms(1)] wf_key_unsigned(4,5)[OF assms(2)]
  by (auto simp: rev_less_def sless_nonneg_iff)

lemma key_less:
  assumes "wf_key k" "wf_key k'" "rev_less (key_rev k) (key_rev k')"
  shows "k < k'"
proof -
  have "revToBytes (key_rev k) < revToBytes (key_rev k')"
    using rev_less_unsigned[OF assms] by (simp add: revToBytes_less_iff)
  then have "revToBytes (key_rev k) @ drop revBytesLen k
      < revToBytes (key_rev k') @ drop revBytesLen k'"
    by (simp add: append_less_eqlen length_revToBytes)
  then show ?thesis using wf_key_split[OF assms(1)] wf_key_split[OF assms(2)] by simp
qed

lemma word_less_succ:
  fixes x :: "64 word"
  assumes "x \<le> 0x7FFFFFFFFFFFFFFF"
  shows "x < x + 1"
proof -
  have "\<not> (- 1 :: 64 word) \<le> 0x7FFFFFFFFFFFFFFF"
    by (simp add: word_le_def unsigned_minus_1_eq_mask mask_eq_exp_minus_1)
  then have "x \<noteq> - 1" using assms by auto
  moreover have "x + 1 \<le> x + 1" by simp
  ultimately show ?thesis using inc_less_eq_iff[of x "x + 1"] by simp
qed

lemma key_less_next:
  assumes "wf_key k"
  shows "k < revToBytes (next_rev (key_rev k))"
proof -
  have "sub (key_rev k) < sub (key_rev k) + 1"
    using wf_key_unsigned(3)[OF assms] by (simp add: word_less_succ MaxInt64_def)
  then have "revToBytes (key_rev k) < revToBytes (next_rev (key_rev k))"
    by (simp add: revToBytes_less_iff next_rev_def)
  then have "revToBytes (key_rev k) @ drop revBytesLen k < revToBytes (next_rev (key_rev k)) @ []"
    by (simp only: append_less_eqlen length_revToBytes) simp
  then show ?thesis using wf_key_split[OF assms] by simp
qed

lemma next_le_key:
  assumes "wf_key k" "wf_key k'" "rev_less (key_rev k) (key_rev k')"
  shows "revToBytes (next_rev (key_rev k)) \<le> k'"
proof -
  from rev_less_unsigned[OF assms]
  have "main (key_rev k) < main (key_rev k')
     \<or> main (key_rev k) = main (key_rev k') \<and> sub (key_rev k) + 1 \<le> sub (key_rev k')"
    by (auto intro: inc_le)
  then have "revToBytes (next_rev (key_rev k)) \<le> revToBytes (key_rev k')"
    by (simp add: revToBytes_le_iff next_rev_def)
  also have "\<dots> \<le> revToBytes (key_rev k') @ drop revBytesLen k'" by (rule prefix_le_append)
  also have "\<dots> = k'" using wf_key_split[OF assms(2)] by simp
  finally show ?thesis .
qed

lemma min_le_key:
  assumes "wf_key k"
  shows "revToBytes \<lparr>main = 1, sub = 0\<rparr> \<le> k"
proof -
  have "1 < main (key_rev k) \<or> main (key_rev k) = 1"
    using wf_key_unsigned(1)[OF assms] by (auto simp: le_less)
  then have "revToBytes \<lparr>main = 1, sub = 0\<rparr> \<le> revToBytes (key_rev k)"
    unfolding revToBytes_le_iff by auto
  also have "\<dots> \<le> revToBytes (key_rev k) @ drop revBytesLen k" by (rule prefix_le_append)
  also have "\<dots> = k" using wf_key_split[OF assms] by simp
  finally show ?thesis .
qed

lemma key_less_max:
  assumes "wf_key k"
  shows "k < revToBytes \<lparr>main = MaxInt64, sub = MaxInt64\<rparr>"
proof -
  have "revToBytes (key_rev k) < revToBytes \<lparr>main = MaxInt64, sub = MaxInt64\<rparr>"
    using wf_key_unsigned(2,3,6)[OF assms] by (auto simp: revToBytes_less_iff le_less)
  then have "revToBytes (key_rev k) @ drop revBytesLen k
      < revToBytes \<lparr>main = MaxInt64, sub = MaxInt64\<rparr> @ []"
    by (simp only: append_less_eqlen length_revToBytes) simp
  then show ?thesis using wf_key_split[OF assms] by simp
qed

section \<open>The scanning loop of recovery\<close>

lemma filter_split:
  assumes "\<forall>x \<in> set pre. \<not> P x" "\<forall>x \<in> set rest. P x"
  shows "filter P (pre @ rest) = rest"
  using assms by (simp add: filter_empty_conv[THEN iffD2] filter_id_conv[THEN iffD2])

lemma sorted_wrt_last:
  assumes "sorted_wrt R xs" "x \<in> set xs"
  shows "x = last xs \<or> R x (last xs)"
  using assms
proof (induction xs)
  case Nil then show ?case by simp
next
  case (Cons a xs)
  then show ?case by (cases "xs = []") auto
qed

lemma scan_from:
  assumes ok: "key_bucket_ok (batch be keyBucketName)"
    and split: "batch be keyBucketName = pre @ rest"
    and pre: "\<forall>row \<in> set pre. fst row < mn"
    and rest: "\<forall>row \<in> set rest. mn \<le> fst row"
  shows "restore_scan f be mn (revToBytes \<lparr>main = MaxInt64, sub = MaxInt64\<rparr>) st
       = Some (foldE f (chunked restoreChunkKeys rest) st)"
  using split pre rest
proof (induction "length rest" arbitrary: pre rest mn st rule: less_induct)
  case less
  let ?mx = "revToBytes \<lparr>main = MaxInt64, sub = MaxInt64\<rparr>"
  let ?N = restoreChunkKeys
  have N: "0 < ?N" by (simp add: restoreChunkKeys_def)
  have wf: "wf_key (fst row)" if "row \<in> set (pre @ rest)" for row
    using ok that less.prems(1) by (auto simp: key_bucket_ok_def list_all_iff)
  have srt: "sorted_wrt (\<lambda>x y. rev_less (key_rev (fst x)) (key_rev (fst y))) (pre @ rest)"
  proof -
    from ok have "sorted_wrt rev_less (map (\<lambda>row. key_rev (fst row)) (batch be keyBucketName))"
      by (simp add: key_bucket_ok_def)
    then show ?thesis unfolding less.prems(1) sorted_wrt_map .
  qed
  have "filter (\<lambda>row. mn \<le> fst row \<and> fst row < ?mx) (pre @ rest) = rest"
  proof (rule filter_split)
    show "\<forall>x\<in>set pre. \<not> (mn \<le> fst x \<and> fst x < ?mx)" using less.prems(2) by auto
    show "\<forall>x\<in>set rest. mn \<le> fst x \<and> fst x < ?mx"
      using less.prems(3) wf key_less_max by auto
  qed
  then have rng: "UnsafeRange be keyBucketName mn (Some ?mx) ?N = take ?N rest"
    by (simp add: UnsafeRange_def less.prems(1))
  show ?case
  proof (cases "rest = []")
    case True
    then show ?thesis
      by (subst restore_scan.simps) (simp add: rng chunked.simps)
  next
    case ne: False
    then have tne: "take ?N rest \<noteq> []" using N by (cases rest) auto
    show ?thesis
    proof (cases "f (take ?N rest) st")
      case (Inl e)
      then have "foldE f (chunked ?N rest) st = Inl e"
        using ne N by (subst chunked.simps) auto
      then show ?thesis using Inl tne
        by (subst restore_scan.simps) (simp add: rng)
    next
      case (Inr st')
      show ?thesis
      proof (cases "length rest < ?N")
        case True
        then have "chunked ?N rest = [rest]" using ne by (subst chunked.simps) simp
        then have "foldE f (chunked ?N rest) st = Inr st'" using Inr True by simp
        then show ?thesis using Inr tne True
          by (subst restore_scan.simps) (simp add: rng)
      next
        case False
        then have len: "?N \<le> length rest" by simp
        let ?c = "take ?N rest"
        let ?lk = "fst (last ?c)"
        let ?nm = "revToBytes (next_rev (key_rev ?lk))"
        have lin: "last ?c \<in> set rest" using tne by (meson in_set_takeD last_in_set)
        then have wl: "wf_key ?lk" using wf by simp
        then have "revBytesLen \<le> length ?lk" by (auto simp: wf_key_def markedRevBytesLen_def)
        then have dec: "bytesToRev (take revBytesLen ?lk) = Some (key_rev ?lk)"
          by (rule key_rev_take(1))
        have ch: "chunked ?N rest = ?c # chunked ?N (drop ?N rest)"
          using ne N False by (subst chunked.simps) simp
        have srt_rest: "sorted_wrt (\<lambda>x y. rev_less (key_rev (fst x)) (key_rev (fst y))) rest"
          using srt by (simp add: sorted_wrt_append)
        have c_le: "fst row < ?nm" if "row \<in> set ?c" for row
        proof -
          have "sorted_wrt (\<lambda>x y. rev_less (key_rev (fst x)) (key_rev (fst y))) ?c"
            using srt_rest by (rule sorted_wrt_take)
          from sorted_wrt_last[OF this that]
          have "fst row = ?lk \<or> fst row < ?lk"
            using key_less[OF wf wl, of row] that by (auto dest: in_set_takeD)
          then show ?thesis using key_less_next[OF wl] by auto
        qed
        have step: "restore_scan f be ?nm ?mx st'
            = Some (foldE f (chunked ?N (drop ?N rest)) st')"
        proof (rule less.hyps[where pre = "pre @ ?c"])
          show "length (drop ?N rest) < length rest" using ne N by simp
          show "batch be keyBucketName = (pre @ ?c) @ drop ?N rest"
            by (simp add: less.prems(1))
          show "\<forall>row\<in>set (pre @ ?c). fst row < ?nm"
          proof
            fix row assume "row \<in> set (pre @ ?c)"
            then consider "row \<in> set pre" | "row \<in> set ?c" by auto
            then show "fst row < ?nm"
            proof cases
              case 1
              then have "fst row < mn" using less.prems(2) by simp
              also have "mn \<le> ?lk" using less.prems(3) lin by simp
              also have "?lk < ?nm" by (rule key_less_next[OF wl])
              finally show ?thesis .
            next
              case 2 then show ?thesis by (rule c_le)
            qed
          qed
          show "\<forall>row\<in>set (drop ?N rest). ?nm \<le> fst row"
          proof
            fix row assume r: "row \<in> set (drop ?N rest)"
            have "sorted_wrt (\<lambda>x y. rev_less (key_rev (fst x)) (key_rev (fst y)))
                (?c @ drop ?N rest)" using srt_rest by simp
            then have "rev_less (key_rev ?lk) (key_rev (fst row))"
              using r tne unfolding sorted_wrt_append by (meson last_in_set)
            moreover have "wf_key (fst row)"
            proof (rule wf)
              from r have "row \<in> set rest" by (rule in_set_dropD)
              then show "row \<in> set (pre @ rest)" by simp
            qed
            ultimately show "?nm \<le> fst row" using next_le_key[OF wl] by simp
          qed
        qed
        have "foldE f (chunked ?N rest) st = foldE f (chunked ?N (drop ?N rest)) st'"
          unfolding ch using Inr by simp
        then show ?thesis using Inr tne len step dec
          by (subst restore_scan.simps) (simp add: rng next_rev_def)
      qed
    qed
  qed
qed

section \<open>Compaction requests\<close>

text \<open>
  Claim C1. When the requested revision is above both \<open>compactMainRev\<close> and
  \<open>currentRev\<close>, \<^verbatim>\<open>Compact\<close> returns the nil channel with \<^verbatim>\<open>ErrFutureRev\<close> and the store
  is the one it started from: the two revisions, the key index, the backend (staged and
  durable), the scheduler's queue and the list of effects are all unchanged.
\<close>

theorem Compact_future_rev:
  "compactMainRev s <s r \<Longrightarrow> currentRev s <s r \<Longrightarrow> Compact r s = ((None, Some ErrFutureRev), s)"
  by (simp add: Compact_def not_sle_iff[symmetric])

theorem Compact_future_rev_witness:
  "compactMainRev (new_store empty_backend None None) <s 5
   \<and> currentRev (new_store empty_backend None None) <s 5
   \<and> Compact 5 (new_store empty_backend None None)
       = ((None, Some ErrFutureRev), new_store empty_backend None None)"
proof -
  have h1: "compactMainRev (new_store empty_backend None None) <s 5"
    by (simp add: new_store_def word_sless_alt)
  have h2: "currentRev (new_store empty_backend None None) <s 5"
    by (simp add: new_store_def word_sless_alt)
  show ?thesis using h1 h2 Compact_future_rev[OF h1 h2] by simp
qed

text \<open>
  Claim C2. When the requested revision is at or below \<open>compactMainRev\<close>, \<^verbatim>\<open>Compact\<close>
  returns a newly made channel together with \<^verbatim>\<open>ErrCompacted\<close>. Its only effect is to
  append the barrier job for that channel to the scheduler's queue: no channel is closed
  by \<^verbatim>\<open>Compact\<close> itself, and \<open>compactMainRev\<close>, \<open>currentRev\<close>, the backend and the key index
  are unchanged. The queued job, once it runs under a context that is not cancelled,
  closes the channel.
\<close>

theorem Compact_compacted:
  "r \<le>s compactMainRev s \<Longrightarrow>
     fst (Compact r s) = (Some (nchan s), Some ErrCompacted)
   \<and> fifoSched (snd (Compact r s)) = fifoSched s @ [BarrierJob (nchan s)]
   \<and> trace (snd (Compact r s)) = trace s @ [SchedSchedule (BarrierJob (nchan s))]
   \<and> closed (snd (Compact r s)) = closed s
   \<and> compactMainRev (snd (Compact r s)) = compactMainRev s
   \<and> currentRev (snd (Compact r s)) = currentRev s
   \<and> b (snd (Compact r s)) = b s
   \<and> kvindex (snd (Compact r s)) = kvindex s
   \<and> (\<forall>sc t. run_job sc False (BarrierJob (nchan s)) t = close_chan (nchan s) t)"
  by (simp add: Compact_def make_chan_def Schedule_def emit_def compactBarrier_def)

theorem Compact_compacted_witness:
  "(- 1 :: int64) \<le>s compactMainRev (new_store empty_backend None None)
   \<and> fst (Compact (- 1) (new_store empty_backend None None)) = (Some 1, Some ErrCompacted)
   \<and> fifoSched (snd (Compact (- 1) (new_store empty_backend None None))) = [BarrierJob 1]
   \<and> closed (snd (Compact (- 1) (new_store empty_backend None None))) = {}
   \<and> compactMainRev (snd (Compact (- 1) (new_store empty_backend None None))) = - 1"
proof -
  have h: "(- 1 :: int64) \<le>s compactMainRev (new_store empty_backend None None)"
    by (simp add: new_store_def)
  show ?thesis using h Compact_compacted[OF h] by (simp add: new_store_def)
qed

lemma Compact_ok_eq:
  assumes "compactMainRev s <s r" "r \<le>s currentRev s"
  shows "Compact r s =
    ((Some (nchan s), None),
     Schedule (CompactJob r (Keep r (kvindex s)) (nchan s))
      ((emit (IndexCompact r)
        ((b_ForceCommit (tx_Unlock (tx_UnsafePut metaBucketName scheduledCompactKeyName
            (revToBytes \<lparr>main = r, sub = 0\<rparr>) (tx_Lock (set_compactMainRev r s)))))
          \<lparr>kvindex := kvindex s @ [Idx_Compact r]\<rparr>))
       \<lparr>nchan := Suc (nchan s)\<rparr>))"
proof -
  have a: "\<not> r \<le>s compactMainRev s" using assms(1) by (simp add: not_sle_iff)
  have c: "\<not> currentRev s <s r" using assms(2) by (simp add: not_sless_iff)
  have k: "kvindex (b_ForceCommit (tx_Unlock (tx_UnsafePut metaBucketName scheduledCompactKeyName
            (revToBytes \<lparr>main = r, sub = 0\<rparr>) (tx_Lock (set_compactMainRev r s))))) = kvindex s"
    by (simp add: b_ForceCommit_def tx_Unlock_def tx_UnsafePut_def tx_Lock_def
        set_compactMainRev_def emit_def)
  have n: "nchan (emit (IndexCompact r)
        ((b_ForceCommit (tx_Unlock (tx_UnsafePut metaBucketName scheduledCompactKeyName
            (revToBytes \<lparr>main = r, sub = 0\<rparr>) (tx_Lock (set_compactMainRev r s)))))
          \<lparr>kvindex := kvindex s @ [Idx_Compact r]\<rparr>)) = nchan s"
    by (simp add: b_ForceCommit_def tx_Unlock_def tx_UnsafePut_def tx_Lock_def
        set_compactMainRev_def emit_def)
  show ?thesis
    unfolding Compact_def using a c
    by (simp add: Let_def index_Compact_def make_chan_def k n)
qed

lemma Compact_mu:
  "Compact r (s\<lparr>mu := m\<rparr>) = (fst (Compact r s), (snd (Compact r s))\<lparr>mu := m\<rparr>)"
  by (simp add: Compact_def Let_def make_chan_def Schedule_def emit_def set_compactMainRev_def
      tx_Lock_def tx_Unlock_def tx_UnsafePut_def b_ForceCommit_def index_Compact_def)

lemma Compact_keeps_mu: "mu (snd (Compact r s)) = mu s"
  by (simp add: Compact_def Let_def make_chan_def Schedule_def emit_def set_compactMainRev_def
      tx_Lock_def tx_Unlock_def tx_UnsafePut_def b_ForceCommit_def index_Compact_def)

lemma locked_Compact:
  "locked (Compact r) s = (if mu s then None else Some (Compact r s))"
proof (cases "mu s")
  case True
  then show ?thesis by (simp add: locked_def mu_Lock_def)
next
  case False
  then have "mu (snd (Compact r s)) = False" by (simp add: Compact_keeps_mu)
  then have "(snd (Compact r s))\<lparr>mu := False\<rparr> = snd (Compact r s)"
    by (cases "snd (Compact r s)") simp
  with False show ?thesis
    by (simp add: locked_def mu_Lock_def mu_Unlock_def Compact_mu)
qed

lemma restore_eq:
  assumes "restore_index um s = Some (Inr (s1, sc))"
  shows "restore um s =
     (if sc = 0 then Some (Inr s1)
      else if mu s1 then None
      else Some (Inr (snd (Compact sc s1))))"
  unfolding restore_def assms by (simp add: locked_Compact split: prod.splits)

text \<open>
  Claim C3. When the requested revision lies above \<open>compactMainRev\<close> and not above
  \<open>currentRev\<close>, \<^verbatim>\<open>Compact\<close> returns a newly made channel and no error, and its effects
  are, in this order: \<open>compactMainRev\<close> is set to the revision; the encoding of the revision
  with sub-revision 0, which is 16 bytes long and decodes to that revision, is put under
  \<^verbatim>\<open>scheduledCompactRev\<close> of the meta bucket inside the batch transaction; the backend is
  force-committed, so that the entry is durable; the key index is compacted at the
  revision; and last the sweep job, which carries what the index compaction returned on
  the index as it was, is appended to the scheduler's queue.
\<close>

theorem Compact_schedules:
  assumes "compactMainRev s <s r" "r \<le>s currentRev s"
  shows "fst (Compact r s) = (Some (nchan s), None)
   \<and> trace (snd (Compact r s)) = trace s @
        [SetCompactMainRev r, TxLock,
         TxPut metaBucketName scheduledCompactKeyName (revToBytes \<lparr>main = r, sub = 0\<rparr>),
         TxUnlock, BackendForceCommit, IndexCompact r,
         SchedSchedule (CompactJob r (Keep r (kvindex s)) (nchan s))]
   \<and> length (revToBytes \<lparr>main = r, sub = 0\<rparr>) = 16
   \<and> bytesToRev (revToBytes \<lparr>main = r, sub = 0\<rparr>) = Some \<lparr>main = r, sub = 0\<rparr>
   \<and> compactMainRev (snd (Compact r s)) = r
   \<and> map_of (durable (b (snd (Compact r s))) metaBucketName) scheduledCompactKeyName
        = Some (revToBytes \<lparr>main = r, sub = 0\<rparr>)
   \<and> kvindex (snd (Compact r s)) = kvindex s @ [Idx_Compact r]
   \<and> fifoSched (snd (Compact r s)) = fifoSched s @ [CompactJob r (Keep r (kvindex s)) (nchan s)]
   \<and> closed (snd (Compact r s)) = closed s
   \<and> currentRev (snd (Compact r s)) = currentRev s"
  unfolding Compact_ok_eq[OF assms]
  by (simp add: Schedule_def emit_def
      set_compactMainRev_def tx_Lock_def tx_Unlock_def tx_UnsafePut_def b_ForceCommit_def
      UnsafePut_def ForceCommit_def map_of_put_row length_revToBytes bytesToRev_revToBytes)

theorem Compact_schedules_witness:
  "compactMainRev (new_store empty_backend None None) <s 1
   \<and> (1 :: int64) \<le>s currentRev (new_store empty_backend None None)
   \<and> fst (Compact 1 (new_store empty_backend None None)) = (Some 1, None)
   \<and> compactMainRev (snd (Compact 1 (new_store empty_backend None None))) = 1
   \<and> fifoSched (snd (Compact 1 (new_store empty_backend None None)))
        = [CompactJob 1 (Keep 1 []) 1]"
proof -
  have h1: "compactMainRev (new_store empty_backend None None) <s 1"
    by (simp add: new_store_def word_sless_alt)
  have h2: "(1 :: int64) \<le>s currentRev (new_store empty_backend None None)"
    by (simp add: new_store_def)
  show ?thesis using h1 h2 Compact_schedules[OF h1 h2]
    by (simp add: new_store_def newTreeIndex_def)
qed

section \<open>The consistent index\<close>

lemma filter_put_row:
  "filter (\<lambda>row. fst row = k) (put_row k v rows) = (k, v) # tl (filter (\<lambda>row. fst row = k) (put_row k v rows))"
  by (induction rows) auto

lemma saveIndex_Some:
  assumes "ig s = Some g"
  shows "saveIndex s =
     (tx_UnsafePut metaBucketName consistentIndexKeyName (PutUint64 (g (ig_calls s)))
        (s\<lparr>ig_calls := Suc (ig_calls s), bytesBuf8 := PutUint64 (g (ig_calls s))\<rparr>))
     \<lparr>consistentIndex := g (ig_calls s)\<rparr>"
  using assms by (simp add: saveIndex_def Let_def)

text \<open>
  Claim C7. With no getter, \<^verbatim>\<open>saveIndex\<close> changes nothing. With a getter, it stages
  the value the getter returns at this call under \<^verbatim>\<open>consistent_index\<close> of the meta bucket,
  as 8 bytes that read big-endian as that value, and stores the same value in the cache
  \<open>consistentIndex\<close>; so the cache and the staged entry agree, and \<^verbatim>\<open>ConsistentIndex\<close>
  answers with that value. The put is the only effect: \<^verbatim>\<open>saveIndex\<close> neither locks nor
  unlocks the batch transaction, and commits nothing.
\<close>

theorem saveIndex_writes:
  "(ig s = None \<longrightarrow> saveIndex s = s)
   \<and> (\<forall>g. ig s = Some g \<longrightarrow>
        map_of (batch (b (saveIndex s)) metaBucketName) consistentIndexKeyName
          = Some (PutUint64 (g (ig_calls s)))
      \<and> length (PutUint64 (g (ig_calls s))) = 8
      \<and> be_nat (PutUint64 (g (ig_calls s))) = unat (g (ig_calls s))
      \<and> consistentIndex (saveIndex s) = g (ig_calls s)
      \<and> Uint64 (PutUint64 (g (ig_calls s))) = consistentIndex (saveIndex s)
      \<and> (\<exists>t. ConsistentIndex (saveIndex s) = Inr (g (ig_calls s), t))
      \<and> durable (b (saveIndex s)) = durable (b s)
      \<and> trace (saveIndex s) = trace s
           @ [TxPut metaBucketName consistentIndexKeyName (PutUint64 (g (ig_calls s)))])"
proof (intro conjI allI impI)
  assume "ig s = None" then show "saveIndex s = s" by (simp add: saveIndex_def)
next
  fix g assume g: "ig s = Some g"
  note e = saveIndex_Some[OF g]
  show "map_of (batch (b (saveIndex s)) metaBucketName) consistentIndexKeyName
          = Some (PutUint64 (g (ig_calls s)))"
    by (simp add: e tx_UnsafePut_def emit_def UnsafePut_def map_of_put_row)
  show "length (PutUint64 (g (ig_calls s))) = 8" by (rule length_PutUint64)
  show "be_nat (PutUint64 (g (ig_calls s))) = unat (g (ig_calls s))" by (rule be_nat_PutUint64)
  show "consistentIndex (saveIndex s) = g (ig_calls s)" by (simp add: e)
  show "Uint64 (PutUint64 (g (ig_calls s))) = consistentIndex (saveIndex s)"
    by (simp add: e Uint64_PutUint64)
  show "durable (b (saveIndex s)) = durable (b s)"
    by (simp add: e tx_UnsafePut_def emit_def UnsafePut_def)
  show "trace (saveIndex s) = trace s
           @ [TxPut metaBucketName consistentIndexKeyName (PutUint64 (g (ig_calls s)))]"
    by (simp add: e tx_UnsafePut_def emit_def)
  show "\<exists>t. ConsistentIndex (saveIndex s) = Inr (g (ig_calls s), t)"
  proof (cases "0 < g (ig_calls s)")
    case True
    then show ?thesis by (simp add: ConsistentIndex_def e)
  next
    case False
    then have z: "g (ig_calls s) = 0" by (simp add: word_greater_zero_iff)
    have c0: "consistentIndex (saveIndex s) = 0" by (simp add: e z)
    have r: "UnsafeRange (b (tx_Lock (saveIndex s))) metaBucketName consistentIndexKeyName None 0
       = (consistentIndexKeyName, PutUint64 0) #
           tl (filter (\<lambda>row. fst row = consistentIndexKeyName)
             (put_row consistentIndexKeyName (PutUint64 0) (batch (b s) metaBucketName)))"
      using filter_put_row[of consistentIndexKeyName "PutUint64 0" "batch (b s) metaBucketName"]
      by (simp add: e z UnsafeRange_def tx_Lock_def tx_UnsafePut_def emit_def UnsafePut_def)
    show ?thesis
      unfolding ConsistentIndex_def
      by (simp add: c0 r Let_def length_PutUint64 Uint64_PutUint64 z)
  qed
qed

theorem saveIndex_writes_witness:
  "ig (new_store empty_backend None None) = None
   \<and> saveIndex (new_store empty_backend None None) = new_store empty_backend None None
   \<and> ig (new_store empty_backend None (Some (getter_of [7]))) = Some (getter_of [7])
   \<and> consistentIndex (saveIndex (new_store empty_backend None (Some (getter_of [7])))) = 7
   \<and> map_of (batch (b (saveIndex (new_store empty_backend None (Some (getter_of [7])))))
        metaBucketName) consistentIndexKeyName = Some (PutUint64 7)"
  using saveIndex_writes[of "new_store empty_backend None None"]
    saveIndex_writes[of "new_store empty_backend None (Some (getter_of [7]))"]
  by (simp add: new_store_def getter_of_def)

lemma Commit_Some:
  assumes "ig s = Some g"
  shows "ig (Commit s) = Some g" "ig_calls (Commit s) = Suc (ig_calls s)"
    "persisted_index (Commit s) = Some (g (ig_calls s))"
proof -
  have i: "ig (tx_Lock s) = Some g" using assms by (simp add: tx_Lock_def emit_def)
  have c: "ig_calls (tx_Lock s) = ig_calls s" by (simp add: tx_Lock_def emit_def)
  note e = saveIndex_Some[OF i]
  have C: "Commit s = b_ForceCommit (tx_Unlock
       ((tx_UnsafePut metaBucketName consistentIndexKeyName (PutUint64 (g (ig_calls s)))
          ((tx_Lock s)\<lparr>ig_calls := Suc (ig_calls s), bytesBuf8 := PutUint64 (g (ig_calls s))\<rparr>))
        \<lparr>consistentIndex := g (ig_calls s)\<rparr>))"
    unfolding Commit_def Let_def e c ..
  show "ig (Commit s) = Some g"
    using assms unfolding C by (simp add: b_ForceCommit_def tx_Unlock_def tx_Lock_def
        tx_UnsafePut_def emit_def)
  show "ig_calls (Commit s) = Suc (ig_calls s)"
    unfolding C by (simp add: b_ForceCommit_def tx_Unlock_def tx_Lock_def
        tx_UnsafePut_def emit_def)
  show "persisted_index (Commit s) = Some (g (ig_calls s))"
    unfolding C by (simp add: persisted_index_def b_ForceCommit_def tx_Unlock_def tx_Lock_def
        tx_UnsafePut_def emit_def ForceCommit_def UnsafePut_def map_of_put_row Uint64_PutUint64)
qed

lemma Commit_pow:
  assumes "ig s = Some g"
  shows "ig ((Commit ^^ n) s) = Some g \<and> ig_calls ((Commit ^^ n) s) = ig_calls s + n"
proof (induction n)
  case 0 then show ?case using assms by simp
next
  case (Suc n)
  then show ?case using Commit_Some(1,2)[of "(Commit ^^ n) s" g] by simp
qed

lemma persisted_pow:
  assumes "ig s = Some g"
  shows "persisted_index ((Commit ^^ Suc n) s) = Some (g (ig_calls s + n))"
  using Commit_pow[OF assms, of n] Commit_Some(3)[of "(Commit ^^ n) s" g] by simp

text \<open>
  Claim C8, as amended. \<^verbatim>\<open>saveIndex\<close> persists whatever the getter returns and compares
  it with nothing. After each commit the durable \<^verbatim>\<open>consistent_index\<close> is the value the
  getter returned at that commit; it does not decrease from one commit to a later one
  provided the values the getter returns at its successive calls do not decrease.
\<close>

theorem consistent_index_follows_getter:
  assumes "ig s = Some g" and "\<forall>i j. ig_calls s \<le> i \<and> i \<le> j \<longrightarrow> g i \<le> g j" and "m \<le> n"
  shows "persisted_index ((Commit ^^ Suc m) s) = Some (g (ig_calls s + m))
     \<and> persisted_index ((Commit ^^ Suc n) s) = Some (g (ig_calls s + n))
     \<and> g (ig_calls s + m) \<le> g (ig_calls s + n)"
  using assms persisted_pow[OF assms(1)] by simp

theorem consistent_index_follows_getter_witness:
  "ig (new_store empty_backend None (Some (getter_of [3, 5]))) = Some (getter_of [3, 5])
   \<and> (0 :: nat) \<le> 1
   \<and> persisted_index ((Commit ^^ Suc 0) (new_store empty_backend None (Some (getter_of [3, 5])))) = Some 3
   \<and> persisted_index ((Commit ^^ Suc 1) (new_store empty_backend None (Some (getter_of [3, 5])))) = Some 5"
proof -
  have h1: "ig (new_store empty_backend None (Some (getter_of [3, 5]))) = Some (getter_of [3, 5])"
    by (simp add: new_store_def)
  have h2: "\<forall>i j. ig_calls (new_store empty_backend None (Some (getter_of [3, 5]))) \<le> i \<and> i \<le> j
         \<longrightarrow> getter_of [3, 5] i \<le> getter_of [3, 5] j"
    by (auto simp: getter_of_def less_Suc_eq)
  have h3: "(0 :: nat) \<le> 1" by simp
  have z: "ig_calls (new_store empty_backend None (Some (getter_of [3, 5]))) = 0"
    by (simp add: new_store_def)
  show ?thesis
    using consistent_index_follows_getter[OF h1 h2 h3] h1
    by (simp add: z getter_of_def)
qed

text \<open>
  Claim C8, as stated, fails: with a getter that returns 5 and then 3, the first commit
  persists 5 and the second persists 3.
\<close>

theorem consistent_index_decreases:
  "persisted_index (Commit (new_store empty_backend None (Some (getter_of [5, 3])))) = Some 5
   \<and> persisted_index (Commit (Commit (new_store empty_backend None (Some (getter_of [5, 3]))))) = Some 3
   \<and> \<not> (5 :: uint64) \<le> 3"
proof -
  have h1: "ig (new_store empty_backend None (Some (getter_of [5, 3]))) = Some (getter_of [5, 3])"
    by (simp add: new_store_def)
  have z: "ig_calls (new_store empty_backend None (Some (getter_of [5, 3]))) = 0"
    by (simp add: new_store_def)
  show ?thesis
    using persisted_pow[OF h1, of 0] persisted_pow[OF h1, of 1]
    by (simp add: z getter_of_def)
qed

section \<open>The invariant of the two revisions\<close>


lemma Compact_currentRev: "currentRev (snd (Compact r s)) = currentRev s"
proof (cases "r \<le>s compactMainRev s")
  case True
  then show ?thesis by (simp add: Compact_def make_chan_def Schedule_def emit_def)
next
  case False
  then have a: "compactMainRev s <s r" by (simp add: not_sle_iff)
  show ?thesis
  proof (cases "currentRev s <s r")
    case True
    with False show ?thesis by (simp add: Compact_def)
  next
    case False
    then have c: "r \<le>s currentRev s" by (simp add: not_sless_iff)
    show ?thesis
      unfolding Compact_ok_eq[OF a c]
      by (simp add: Schedule_def emit_def set_compactMainRev_def tx_Lock_def
          tx_Unlock_def tx_UnsafePut_def b_ForceCommit_def)
  qed
qed

lemma attach_leases_revs:
  "attach_leases k2l s = Inr s' \<Longrightarrow>
     currentRev s' = currentRev s \<and> compactMainRev s' = compactMainRev s"
  unfolding attach_leases_def
proof (induction k2l arbitrary: s)
  case Nil then show ?case by simp
next
  case (Cons kl k2l)
  show ?case
  proof (cases "le s")
    case None
    with Cons.prems show ?thesis by simp
  next
    case (Some l)
    with Cons.prems Cons.IH[of "emit (LessorAttach (snd kl) (fst kl)) (s\<lparr>le := Some (l @ [(snd kl, fst kl)])\<rparr>)"]
    show ?thesis by (simp add: emit_def)
  qed
qed




lemma restore_scan_empty:
  "UnsafeRange be keyBucketName mn (Some mx) restoreChunkKeys = [] \<Longrightarrow>
     restore_scan f be mn mx st = Some (Inr st)"
  by (subst restore_scan.simps) simp



section \<open>What recovery does to the store\<close>

lemma restoreRow_store:
  assumes "restoreRow um row (un, k2l, s) = Inr (un', k2l', s')"
  shows "s' = set_currentRev (main (key_rev (fst row))) s"
  using assms unfolding restoreRow_def key_rev_def Let_def
  by (auto split: option.splits if_splits)

lemma cur_after_append: "cur_after (xs @ ys) c = cur_after ys (cur_after xs c)"
  by (simp add: cur_after_def)

lemma restoreChunk_store:
  assumes "foldE (restoreRow um) rows (un, k2l, s) = Inr (un', k2l', s')"
  shows "compactMainRev s' = compactMainRev s \<and> b s' = b s \<and> le s' = le s
     \<and> kvindex s' = kvindex s \<and> fifoSched s' = fifoSched s
     \<and> currentRev s' = cur_after rows (currentRev s)"
  using assms
proof (induction rows arbitrary: un k2l s)
  case Nil
  then show ?case by (simp add: cur_after_def)
next
  case (Cons row rows)
  from Cons.prems obtain un1 k2l1 s1 where
    r: "restoreRow um row (un, k2l, s) = Inr (un1, k2l1, s1)"
    and f: "foldE (restoreRow um) rows (un1, k2l1, s1) = Inr (un', k2l', s')"
    by (auto split: sum.splits)
  have s1: "s1 = set_currentRev (main (key_rev (fst row))) s" using r by (rule restoreRow_store)
  from Cons.IH[OF f] show ?case
    by (cases "rows = []") (simp_all add: s1 set_currentRev_def emit_def cur_after_def)
qed

lemma insert_unordered_store:
  "compactMainRev (insert_unordered un s) = compactMainRev s
   \<and> b (insert_unordered un s) = b s \<and> le (insert_unordered un s) = le s
   \<and> currentRev (insert_unordered un s) = currentRev s
   \<and> fifoSched (insert_unordered un s) = fifoSched s
   \<and> kvindex (insert_unordered un s) = kvindex s @ map (\<lambda>kv. Idx_Insert (snd kv)) un"
  unfolding insert_unordered_def
  by (induction un arbitrary: s) (simp_all add: emit_def index_Insert_def)

lemma restore_send_store:
  assumes "restore_send um rows st = Inr st'"
  shows "compactMainRev (snd st') = compactMainRev (snd st) \<and> b (snd st') = b (snd st)
     \<and> le (snd st') = le (snd st) \<and> fifoSched (snd st') = fifoSched (snd st)
     \<and> currentRev (snd st') = cur_after rows (currentRev (snd st))"
proof -
  from assms obtain un k2l s1 where
    c: "foldE (restoreRow um) rows ([], fst st, snd st) = Inr (un, k2l, s1)"
    and e: "st' = (k2l, insert_unordered un s1)"
    unfolding restore_send_def restoreChunk_def by (auto split: sum.splits)
  from restoreChunk_store[OF c] insert_unordered_store[of un s1] show ?thesis
    by (simp add: e)
qed

lemma restore_scan_preserves_aux:
  assumes "restore_scan f be mn mx st = Some res"
  shows "(\<forall>rows st st'. f rows st = Inr st' \<longrightarrow> Q st \<longrightarrow> Q st') \<longrightarrow> Q st
     \<longrightarrow> (\<forall>st'. res = Inr st' \<longrightarrow> Q st')"
proof (rule restore_scan.raw_induct[where P = "\<lambda>f be mn mx st res.
    (\<forall>rows st st'. f rows st = Inr st' \<longrightarrow> Q st \<longrightarrow> Q st') \<longrightarrow> Q st
     \<longrightarrow> (\<forall>st'. res = Inr st' \<longrightarrow> Q st')", OF _ assms], goal_cases)
  case (1 rs f be mn mx st res)
  let ?rows = "UnsafeRange be keyBucketName mn (Some mx) restoreChunkKeys"
  show ?case
  proof (intro impI allI)
    fix st'
    assume step: "\<forall>rows st st'. f rows st = Inr st' \<longrightarrow> Q st \<longrightarrow> Q st'"
      and q: "Q st" and r: "res = Inr st'"
    show "Q st'"
    proof (cases "?rows = []")
      case True
      with 1(2) r q show ?thesis by (simp add: Let_def)
    next
      case False
      show ?thesis
      proof (cases "f ?rows st")
        case (Inl e)
        with 1(2) False r show ?thesis by (simp add: Let_def)
      next
        case (Inr st1)
        then have q1: "Q st1" using step q by blast
        show ?thesis
        proof (cases "length ?rows < restoreChunkKeys")
          case True
          with 1(2) False Inr r q1 show ?thesis by (simp add: Let_def)
        next
          case F: False
          show ?thesis
          proof (cases "bytesToRev (take revBytesLen (fst (last ?rows)))")
            case None
            with 1(2) False Inr F r show ?thesis by (simp add: Let_def)
          next
            case (Some nm)
            with 1(2) False Inr F
            have "rs f be (revToBytes (nm\<lparr>sub := sub nm + 1\<rparr>)) mx st1 = Some res"
              by (simp add: Let_def)
            from 1(1)[OF this] step q1 r show ?thesis by blast
          qed
        qed
      qed
    qed
  qed
qed

lemma restore_scan_preserves:
  assumes "restore_scan f be mn mx st = Some (Inr st')"
    and "\<And>rows st st'. f rows st = Inr st' \<Longrightarrow> Q st \<Longrightarrow> Q st'"
    and "Q st"
  shows "Q st'"
  using restore_scan_preserves_aux[OF assms(1), of Q] assms(2,3) by blast



lemma restore_send_mu:
  assumes "restore_send um rows st = Inr st'"
  shows "mu (snd st') = mu (snd st)"
proof -
  have row: "mu s' = mu s"
    if "restoreRow um r (un, k2l, s) = Inr (un', k2l', s')" for r un k2l s un' k2l' s'
    using restoreRow_store[OF that] by (simp add: set_currentRev_def emit_def)
  have chunk: "mu s' = mu s"
    if "foldE (restoreRow um) rs (un, k2l, s) = Inr (un', k2l', s')" for rs un k2l s un' k2l' s'
    using that
  proof (induction rs arbitrary: un k2l s)
    case Nil
    then show ?case by simp
  next
    case (Cons r rs)
    from Cons.prems obtain un1 k2l1 s1 where
      r: "restoreRow um r (un, k2l, s) = Inr (un1, k2l1, s1)"
      and f: "foldE (restoreRow um) rs (un1, k2l1, s1) = Inr (un', k2l', s')"
      by (auto split: sum.splits)
    from Cons.IH[OF f] row[OF r] show ?case by simp
  qed
  have ins: "mu (insert_unordered un s) = mu s" for un s
    unfolding insert_unordered_def by (induction un arbitrary: s) (simp_all add: emit_def)
  from assms obtain un k2l s1 where
    c: "foldE (restoreRow um) rows ([], fst st, snd st) = Inr (un, k2l, s1)"
    and e: "st' = (k2l, insert_unordered un s1)"
    unfolding restore_send_def restoreChunk_def by (auto split: sum.splits)
  from chunk[OF c] show ?thesis by (simp add: e ins)
qed

lemma attach_leases_mu:
  "attach_leases k2l s = Inr s' \<Longrightarrow> mu s' = mu s"
  unfolding attach_leases_def
proof (induction k2l arbitrary: s)
  case Nil then show ?case by simp
next
  case (Cons kl k2l)
  show ?case
  proof (cases "le s")
    case None
    with Cons.prems show ?thesis by simp
  next
    case (Some l)
    with Cons.prems Cons.IH[of "emit (LessorAttach (snd kl) (fst kl)) (s\<lparr>le := Some (l @ [(snd kl, fst kl)])\<rparr>)"]
    show ?thesis by (simp add: emit_def)
  qed
qed

lemma restore_index_mu:
  assumes "restore_index um s = Some (Inr (s1, sc))"
  shows "mu s1 = mu s"
proof -
  have b1: "b (tx_Lock s) = b s" by (simp add: tx_Lock_def emit_def)
  have b2: "b (set_compactMainRev m (tx_Lock s)) = b s" for m
    by (simp add: tx_Lock_def set_compactMainRev_def emit_def)
  from assms obtain fin sch k2l s3 s5 where
    f: "meta_main (b s) finishedCompactKeyName = Inr fin"
    and sc: "meta_main (b s) scheduledCompactKeyName = Inr sch"
    and scan: "restore_scan (restore_send um) (b s) (revToBytes \<lparr>main = 1, sub = 0\<rparr>)
        (revToBytes \<lparr>main = MaxInt64, sub = MaxInt64\<rparr>)
        ([], case fin of None \<Rightarrow> tx_Lock s | Some m \<Rightarrow> set_compactMainRev m (tx_Lock s))
        = Some (Inr (k2l, s3))"
    and att: "attach_leases k2l (if currentRev s3 <s compactMainRev s3
           then set_currentRev (compactMainRev s3) s3 else s3) = Inr s5"
    and e1: "s1 = tx_Unlock s5"
    unfolding restore_index_def Let_def b1
    by (auto simp: b1 b2 split: sum.splits option.splits prod.splits)
  let ?s2 = "case fin of None \<Rightarrow> tx_Lock s | Some m \<Rightarrow> set_compactMainRev m (tx_Lock s)"
  have q0: "mu ?s2 = mu s"
    by (simp add: tx_Lock_def set_compactMainRev_def emit_def split: option.splits)
  have "mu (snd (k2l, s3)) = mu s"
    by (rule restore_scan_preserves[OF scan, where Q = "\<lambda>st. mu (snd st) = mu s"])
      (use q0 in \<open>auto dest: restore_send_mu\<close>)
  then have m3: "mu s3 = mu s" by simp
  have "mu s5 = mu s"
    using attach_leases_mu[OF att] m3 by (simp add: set_currentRev_def emit_def)
  then show ?thesis by (simp add: e1 tx_Unlock_def emit_def)
qed

lemma names_distinct:
  "keyBucketName \<noteq> metaBucketName"
  "scheduledCompactKeyName \<noteq> finishedCompactKeyName"
  "finishedCompactKeyName \<noteq> scheduledCompactKeyName"
  "consistentIndexKeyName \<noteq> finishedCompactKeyName"
  "consistentIndexKeyName \<noteq> scheduledCompactKeyName"
  by (simp_all add: keyBucketName_def metaBucketName_def scheduledCompactKeyName_def
      finishedCompactKeyName_def consistentIndexKeyName_def bytes_of_def)

lemma Compact_fresh_backend:
  assumes "(- 1 :: int64) <s r" "r \<le>s 1"
  shows "b (snd (Compact r (new_store empty_backend None None)))
     = \<lparr>batch = (\<lambda>name. [])(metaBucketName := [(scheduledCompactKeyName, revToBytes \<lparr>main = r, sub = 0\<rparr>)]),
        durable = (\<lambda>name. [])(metaBucketName := [(scheduledCompactKeyName, revToBytes \<lparr>main = r, sub = 0\<rparr>)])\<rparr>"
proof -
  have a: "compactMainRev (new_store empty_backend None None) <s r"
    using assms(1) by (simp add: new_store_def)
  have c: "r \<le>s currentRev (new_store empty_backend None None)"
    using assms(2) by (simp add: new_store_def)
  show ?thesis
    unfolding Compact_ok_eq[OF a c]
    by (simp add: Schedule_def emit_def set_compactMainRev_def tx_Lock_def tx_Unlock_def
        tx_UnsafePut_def b_ForceCommit_def UnsafePut_def ForceCommit_def new_store_def
        empty_backend_def)
qed

lemma crash0_eq:
  "crash0_backend
     = \<lparr>batch = (\<lambda>name. [])(metaBucketName := [(scheduledCompactKeyName, revToBytes \<lparr>main = 0, sub = 0\<rparr>)]),
        durable = (\<lambda>name. [])(metaBucketName := [(scheduledCompactKeyName, revToBytes \<lparr>main = 0, sub = 0\<rparr>)])\<rparr>"
  unfolding crash0_backend_def
  by (rule Compact_fresh_backend) (simp_all add: word_sless_alt word_sle_eq)

lemma crash1_eq:
  "crash1_backend
     = \<lparr>batch = (\<lambda>name. [])(metaBucketName := [(scheduledCompactKeyName, revToBytes \<lparr>main = 1, sub = 0\<rparr>)]),
        durable = (\<lambda>name. [])(metaBucketName := [(scheduledCompactKeyName, revToBytes \<lparr>main = 1, sub = 0\<rparr>)])\<rparr>"
  unfolding crash1_backend_def
  by (rule Compact_fresh_backend) (simp_all add: word_sless_alt word_sle_eq)


lemma crash1_meta:
  "meta_main crash1_backend scheduledCompactKeyName = Inr (Some 1)"
  "meta_main crash1_backend finishedCompactKeyName = Inr None"
  "batch crash1_backend keyBucketName = []"
  by (simp_all add: crash1_eq meta_main_def UnsafeRange_def names_distinct bytesToRev_revToBytes)

lemma compacted0_meta:
  "meta_main compacted0_backend scheduledCompactKeyName = Inr (Some 0)"
  "meta_main compacted0_backend finishedCompactKeyName = Inr (Some 0)"
  "batch compacted0_backend keyBucketName = []"
  by (simp_all add: compacted0_backend_def crash0_eq meta_main_def UnsafeRange_def names_distinct
      bytesToRev_revToBytes ForceCommit_def UnsafePut_def)

lemma restore_index_empty_keys:
  assumes k: "batch (b s) keyBucketName = []"
    and f: "meta_main (b s) finishedCompactKeyName = Inr fin"
    and sc: "meta_main (b s) scheduledCompactKeyName = Inr sch"
  shows "restore_index um s =
     Some (Inr (tx_Unlock
        (if currentRev s <s (case fin of None \<Rightarrow> compactMainRev s | Some m \<Rightarrow> m)
         then set_currentRev (case fin of None \<Rightarrow> compactMainRev s | Some m \<Rightarrow> m)
                (case fin of None \<Rightarrow> tx_Lock s | Some m \<Rightarrow> set_compactMainRev m (tx_Lock s))
         else (case fin of None \<Rightarrow> tx_Lock s | Some m \<Rightarrow> set_compactMainRev m (tx_Lock s))),
       if (case sch of None \<Rightarrow> 0 | Some m \<Rightarrow> m)
            \<le>s (case fin of None \<Rightarrow> compactMainRev s | Some m \<Rightarrow> m) then 0
       else (case sch of None \<Rightarrow> 0 | Some m \<Rightarrow> m)))"
proof -
  have b1: "b (tx_Lock s) = b s" by (simp add: tx_Lock_def emit_def)
  have b2: "b (set_compactMainRev m (tx_Lock s)) = b s" for m
    by (simp add: tx_Lock_def set_compactMainRev_def emit_def)
  have scn: "restore_scan g (b s) mn mx st = Some (Inr st)"
    for g mn mx and st :: "keyToLease \<times> store"
    by (rule restore_scan_empty) (simp add: UnsafeRange_def k)
  show ?thesis
    unfolding restore_index_def Let_def b1 f
    by (cases fin)
      (simp_all add: b1 b2 sc scn attach_leases_def tx_Lock_def set_compactMainRev_def
        set_currentRev_def emit_def)
qed

section \<open>Termination of the scan\<close>

lemma key_rev_enc: "key_rev (revToBytes r @ sfx) = r" "key_rev (revToBytes r) = r"
  by (simp_all add: key_rev_def length_revToBytes revBytesLen_def bytesToRev_revToBytes)

lemma wf_key_enc:
  "wf_key (revToBytes r @ sfx) \<longleftrightarrow>
     length sfx \<le> 1 \<and> 1 \<le>s main r \<and> 0 \<le>s sub r \<and> \<not> (main r = MaxInt64 \<and> sub r = MaxInt64)"
  "wf_key (revToBytes r) \<longleftrightarrow>
     1 \<le>s main r \<and> 0 \<le>s sub r \<and> \<not> (main r = MaxInt64 \<and> sub r = MaxInt64)"
  by (auto simp add: wf_key_def key_rev_enc length_revToBytes revBytesLen_def
      markedRevBytesLen_def le_Suc_eq)

lemma sample_rows_ok: "key_bucket_ok sample_rows"
  by (simp add: key_bucket_ok_def sample_rows_def wf_key_enc key_rev_enc rev_less_def
      MaxInt64_def word_sle_eq word_sless_alt)

lemma concat_chunked: "concat (chunked n xs) = xs"
proof (induction n xs rule: chunked.induct)
  case (1 n xs)
  show ?case
  proof (cases "xs = [] \<or> n = 0 \<or> length xs < n")
    case True
    then show ?thesis by (subst chunked.simps) auto
  next
    case False
    then show ?thesis using 1 by (subst chunked.simps) simp
  qed
qed

lemma chunked_bounds:
  "0 < n \<Longrightarrow> c \<in> set (chunked n xs) \<Longrightarrow> c \<noteq> [] \<and> length c \<le> n"
proof (induction n xs rule: chunked.induct)
  case (1 n xs)
  show ?case
  proof (cases "xs = [] \<or> length xs < n")
    case True
    then show ?thesis using "1.prems" by (subst (asm) chunked.simps) (auto split: if_splits)
  next
    case False
    then have "chunked n xs = take n xs # chunked n (drop n xs)"
      using "1.prems"(1) by (subst chunked.simps) simp
    then show ?thesis using 1 False by auto
  qed
qed

lemma chunked_short: "xs \<noteq> [] \<Longrightarrow> length xs < n \<Longrightarrow> chunked n xs = [xs]"
  by (subst chunked.simps) simp

lemma scan_all:
  assumes "key_bucket_ok (batch be keyBucketName)"
  shows "restore_scan f be (revToBytes \<lparr>main = 1, sub = 0\<rparr>)
      (revToBytes \<lparr>main = MaxInt64, sub = MaxInt64\<rparr>) st
       = Some (foldE f (chunked restoreChunkKeys (batch be keyBucketName)) st)"
proof (rule scan_from[OF assms, where pre = "[]"])
  show "batch be keyBucketName = [] @ batch be keyBucketName" by simp
  show "\<forall>row\<in>set []. fst row < revToBytes \<lparr>main = 1, sub = 0\<rparr>" by simp
  show "\<forall>row\<in>set (batch be keyBucketName). revToBytes \<lparr>main = 1, sub = 0\<rparr> \<le> fst row"
  proof
    fix row assume "row \<in> set (batch be keyBucketName)"
    then have "wf_key (fst row)" using assms by (auto simp: key_bucket_ok_def list_all_iff)
    then show "revToBytes \<lparr>main = 1, sub = 0\<rparr> \<le> fst row" by (rule min_le_key)
  qed
qed

lemma restore_returns:
  assumes "key_bucket_ok (batch (b s) keyBucketName)"
  shows "\<exists>res. restore_index um s = Some res"
    and "\<not> mu s \<Longrightarrow> \<exists>res. restore um s = Some res"
proof -
  have sc: "restore_scan f (b s) (revToBytes \<lparr>main = 1, sub = 0\<rparr>)
      (revToBytes \<lparr>main = MaxInt64, sub = MaxInt64\<rparr>) st
       = Some (foldE f (chunked restoreChunkKeys (batch (b s) keyBucketName)) st)" for f and st :: "keyToLease \<times> store"
    using assms by (rule scan_all)
  have b1: "b (tx_Lock s) = b s" by (simp add: tx_Lock_def emit_def)
  have b2: "b (set_compactMainRev m (tx_Lock s)) = b s" for m
    by (simp add: tx_Lock_def set_compactMainRev_def emit_def)
  show ix: "\<exists>res. restore_index um s = Some res"
    unfolding restore_index_def Let_def
    by (auto simp: b1 b2 sc split: sum.splits option.splits prod.splits)
  show "\<exists>res. restore um s = Some res" if free: "\<not> mu s"
  proof -
    from ix obtain res where r: "restore_index um s = Some res" ..
    show ?thesis
    proof (cases res)
      case (Inl e)
      with r show ?thesis by (simp add: restore_def)
    next
      case (Inr p)
      then obtain s1 sc where p: "res = Inr (s1, sc)" by (cases p) simp
      from restore_index_mu[OF r[unfolded p]] free have "\<not> mu s1" by simp
      then show ?thesis unfolding restore_eq[OF r[unfolded p]] by simp
    qed
  qed
qed

lemma key_backend_simps:
  "batch (key_backend rows) keyBucketName = rows"
  "meta_main (key_backend rows) name = Inr None"
  by (simp_all add: key_backend_def meta_main_def UnsafeRange_def names_distinct(1)[symmetric])

lemma sint_of_small:
  assumes "n < 2 ^ 63"
  shows "sint (of_nat n :: 64 word) = int n"
proof -
  have "sint (of_nat n :: 64 word) = signed_take_bit 63 (int n)"
    by (simp add: signed_of_nat)
  also have "\<dots> = int n"
    using assms by (simp add: signed_take_bit_int_eq_self)
  finally show ?thesis .
qed

lemma long_key_rev: "key_rev (fst (long_row i)) = \<lparr>main = of_nat (i + 2), sub = 0\<rparr>"
  by (simp add: long_row_def key_rev_enc)

lemma long_row_wf:
  assumes "i \<le> restoreChunkKeys"
  shows "wf_key (fst (long_row i))"
proof -
  from assms have "i + 2 < 2 ^ 63" by (simp add: restoreChunkKeys_def)
  then have "sint (of_nat (i + 2) :: 64 word) = int (i + 2)" by (rule sint_of_small)
  then show ?thesis
    by (simp add: long_row_def wf_key_enc word_sle_eq MaxInt64_def)
qed

lemma long_rows_ok: "key_bucket_ok long_rows"
proof -
  have w: "list_all (\<lambda>row. wf_key (fst row)) long_rows"
    by (auto simp: long_rows_def list_all_iff intro: long_row_wf)
  have "rev_less (key_rev (fst (long_row i))) (key_rev (fst (long_row j)))"
    if "i < j" "j < Suc restoreChunkKeys" for i j
  proof -
    from that have "i + 2 < 2 ^ 63" "j + 2 < 2 ^ 63" by (simp_all add: restoreChunkKeys_def)
    then have "sint (of_nat (i + 2) :: 64 word) = int (i + 2)"
      "sint (of_nat (j + 2) :: 64 word) = int (j + 2)" by (simp_all only: sint_of_small)
    with that(1) show ?thesis by (simp add: long_key_rev rev_less_def word_sless_alt)
  qed
  then have "sorted_wrt rev_less (map (\<lambda>row. key_rev (fst row)) long_rows)"
    unfolding long_rows_def sorted_wrt_iff_nth_less
    by (auto simp del: upt_Suc simp add: nth_map)
  with w show ?thesis by (simp add: key_bucket_ok_def)
qed

lemma long_rows_length: "length long_rows = Suc restoreChunkKeys"
  by (simp add: long_rows_def del: upt_Suc)

lemma long_rows_chunked:
  "chunked restoreChunkKeys long_rows
     = [take restoreChunkKeys long_rows, drop restoreChunkKeys long_rows]"
proof -
  have N: "0 < restoreChunkKeys" by (simp add: restoreChunkKeys_def)
  have ne: "long_rows \<noteq> []" using long_rows_length by auto
  have 1: "chunked restoreChunkKeys long_rows
      = take restoreChunkKeys long_rows # chunked restoreChunkKeys (drop restoreChunkKeys long_rows)"
    using N ne by (subst chunked.simps) (simp add: long_rows_length)
  have "length (drop restoreChunkKeys long_rows) = 1" by (simp add: long_rows_length)
  then have 2: "chunked restoreChunkKeys (drop restoreChunkKeys long_rows)
      = [drop restoreChunkKeys long_rows]"
    by (intro chunked_short) (auto simp: restoreChunkKeys_def)
  show ?thesis unfolding 1 2 ..
qed

lemma long_rows_last:
  "last (take restoreChunkKeys long_rows)
     = (revToBytes \<lparr>main = 10001, sub = 0\<rparr> @ [markTombstone], [0, 97])"
proof -
  have N: "0 < restoreChunkKeys" by (simp add: restoreChunkKeys_def)
  have "take restoreChunkKeys long_rows = map long_row [0..<restoreChunkKeys]"
    by (simp add: long_rows_def take_map del: upt_Suc)
  then have "last (take restoreChunkKeys long_rows) = long_row (restoreChunkKeys - 1)"
    using N by (simp add: last_map last_upt)
  also have "\<dots> = (revToBytes \<lparr>main = 10001, sub = 0\<rparr> @ [markTombstone], [0, 97])"
    by (simp add: long_row_def restoreChunkKeys_def)
  finally show ?thesis .
qed

lemma foldE_count_rows:
  "foldE count_rows cs n = Inr (n + length (concat cs))"
  by (induction cs arbitrary: n) (simp_all add: count_rows_def)

text \<open>
  Claim C9, as amended. On a backend whose key bucket is as the store leaves it, the
  scanning loop of \<^verbatim>\<open>restore\<close> returns, for every consumer \<open>f\<close> of chunks, and what it
  returns is \<open>f\<close> run over the consecutive chunks of the bucket, in order and stopping at
  the first failure. The chunks put together are the bucket, so every row is handed over
  exactly once; no chunk is empty or longer than 10000 rows. The start of the next scan,
  \<open>(main, sub + 1)\<close> of a row, is strictly above that row's key and above every key at or
  below it in byte order, whether the key has 16 bytes or is a tombstone key of 17. Hence
  \<^verbatim>\<open>restore\<close> gets as far as \<^verbatim>\<open>tx.Unlock()\<close>, and it returns when \<^verbatim>\<open>mu\<close> is free.
\<close>

theorem restore_scan_visits_once:
  assumes "key_bucket_ok (batch (b s) keyBucketName)"
  shows "restore_scan f (b s) (revToBytes \<lparr>main = 1, sub = 0\<rparr>)
           (revToBytes \<lparr>main = MaxInt64, sub = MaxInt64\<rparr>) st
         = Some (foldE f (chunked restoreChunkKeys (batch (b s) keyBucketName)) st)
     \<and> concat (chunked restoreChunkKeys (batch (b s) keyBucketName)) = batch (b s) keyBucketName
     \<and> (\<forall>c \<in> set (chunked restoreChunkKeys (batch (b s) keyBucketName)).
           c \<noteq> [] \<and> length c \<le> restoreChunkKeys)
     \<and> (\<forall>row \<in> set (batch (b s) keyBucketName). \<forall>row' \<in> set (batch (b s) keyBucketName).
           fst row \<le> fst row' \<longrightarrow> fst row < revToBytes (next_rev (key_rev (fst row'))))
     \<and> (\<exists>res. restore_index um s = Some res)
     \<and> (\<not> mu s \<longrightarrow> (\<exists>res. restore um s = Some res))"
proof (intro conjI ballI impI)
  show "restore_scan f (b s) (revToBytes \<lparr>main = 1, sub = 0\<rparr>)
           (revToBytes \<lparr>main = MaxInt64, sub = MaxInt64\<rparr>) st
         = Some (foldE f (chunked restoreChunkKeys (batch (b s) keyBucketName)) st)"
    using assms by (rule scan_all)
  show "concat (chunked restoreChunkKeys (batch (b s) keyBucketName)) = batch (b s) keyBucketName"
    by (rule concat_chunked)
  show "c \<noteq> []" "length c \<le> restoreChunkKeys"
    if "c \<in> set (chunked restoreChunkKeys (batch (b s) keyBucketName))" for c
    using chunked_bounds[OF _ that] by (simp_all add: restoreChunkKeys_def)
  show "fst row < revToBytes (next_rev (key_rev (fst row')))"
    if "row \<in> set (batch (b s) keyBucketName)" "row' \<in> set (batch (b s) keyBucketName)"
      "fst row \<le> fst row'" for row row'
  proof -
    have "wf_key (fst row')" using assms that(2) by (auto simp: key_bucket_ok_def list_all_iff)
    from that(3) key_less_next[OF this] show ?thesis by simp
  qed
  show "\<exists>res. restore_index um s = Some res" using assms by (rule restore_returns(1))
  show "\<exists>res. restore um s = Some res" if "\<not> mu s" using assms that by (rule restore_returns(2))
qed

theorem restore_scan_visits_once_witness:
  "key_bucket_ok (batch (b (new_store (key_backend long_rows) None None)) keyBucketName)
   \<and> length long_rows = Suc restoreChunkKeys
   \<and> chunked restoreChunkKeys long_rows
       = [take restoreChunkKeys long_rows, drop restoreChunkKeys long_rows]
   \<and> last (take restoreChunkKeys long_rows)
       = (revToBytes \<lparr>main = 10001, sub = 0\<rparr> @ [markTombstone], [0, 97])
   \<and> restore_scan count_rows (key_backend long_rows) (revToBytes \<lparr>main = 1, sub = 0\<rparr>)
        (revToBytes \<lparr>main = MaxInt64, sub = MaxInt64\<rparr>) 0 = Some (Inr (Suc restoreChunkKeys))
   \<and> revToBytes \<lparr>main = 10001, sub = 0\<rparr> @ [markTombstone] < revToBytes \<lparr>main = 10001, sub = 1\<rparr>
   \<and> (\<exists>res. restore plain_kv (new_store (key_backend long_rows) None None) = Some res)"
proof -
  let ?s = "new_store (key_backend long_rows) None None"
  have b0: "b ?s = key_backend long_rows" by (simp add: new_store_def)
  have k: "batch (b ?s) keyBucketName = long_rows" by (simp add: b0 key_backend_simps)
  have h: "key_bucket_ok (batch (b ?s) keyBucketName)" unfolding k by (rule long_rows_ok)
  have free: "\<not> mu ?s" by (simp add: new_store_def)
  note t = restore_scan_visits_once[OF h, where um = plain_kv and f = count_rows and st = 0, unfolded b0 key_backend_simps(1)]
  from t have "restore_scan count_rows (key_backend long_rows) (revToBytes \<lparr>main = 1, sub = 0\<rparr>)
        (revToBytes \<lparr>main = MaxInt64, sub = MaxInt64\<rparr>) 0
       = Some (foldE count_rows (chunked restoreChunkKeys long_rows) 0)" by (rule conjunct1)
  then have c: "restore_scan count_rows (key_backend long_rows) (revToBytes \<lparr>main = 1, sub = 0\<rparr>)
        (revToBytes \<lparr>main = MaxInt64, sub = MaxInt64\<rparr>) 0 = Some (Inr (Suc restoreChunkKeys))"
    by (simp add: foldE_count_rows concat_chunked long_rows_length)
  have "long_rows \<noteq> []" using long_rows_length by auto
  then have ne: "take restoreChunkKeys long_rows \<noteq> []"
    by (simp add: restoreChunkKeys_def)
  have m: "last (take restoreChunkKeys long_rows) \<in> set long_rows"
    using last_in_set[OF ne] by (rule in_set_takeD)
  from t have "\<forall>row \<in> set long_rows. \<forall>row' \<in> set long_rows.
           fst row \<le> fst row' \<longrightarrow> fst row < revToBytes (next_rev (key_rev (fst row')))"
    by (rule conjunct2[THEN conjunct2, THEN conjunct2, THEN conjunct1])
  from this[rule_format, OF m m] have
    g: "revToBytes \<lparr>main = 10001, sub = 0\<rparr> @ [markTombstone] < revToBytes \<lparr>main = 10001, sub = 1\<rparr>"
    by (simp add: long_rows_last next_rev_def key_rev_enc)
  from t free have r: "\<exists>res. restore plain_kv ?s = Some res" by blast
  from h long_rows_length long_rows_chunked long_rows_last c g r show ?thesis by blast
qed

section \<open>Backends on which the scan skips rows or does not end\<close>

lemma low_range:
  "UnsafeRange (key_backend low_rows) keyBucketName (revToBytes \<lparr>main = 1, sub = 0\<rparr>)
     (Some mx) n = []"
  by (simp add: UnsafeRange_def key_backend_def low_rows_def revToBytes_le_iff)

lemma wrap_range:
  assumes "mn = revToBytes \<lparr>main = 1, sub = 0\<rparr> \<or> mn = revToBytes \<lparr>main = 2, sub = 0\<rparr>"
  shows "UnsafeRange (key_backend wrap_rows) keyBucketName mn
     (Some (revToBytes \<lparr>main = MaxInt64, sub = MaxInt64\<rparr>)) restoreChunkKeys = wrap_rows"
proof -
  have N: "0 < restoreChunkKeys" by (simp add: restoreChunkKeys_def)
  have len: "length wrap_rows = restoreChunkKeys" using N by (simp add: wrap_rows_def)
  have "\<forall>row \<in> set wrap_rows. mn \<le> fst row
      \<and> fst row < revToBytes \<lparr>main = MaxInt64, sub = MaxInt64\<rparr>"
    using assms by (auto simp: wrap_rows_def revToBytes_le_iff revToBytes_less_iff MaxInt64_def)
  then have "filter (\<lambda>row. mn \<le> fst row
      \<and> fst row < revToBytes \<lparr>main = MaxInt64, sub = MaxInt64\<rparr>) wrap_rows = wrap_rows"
    by (simp add: filter_id_conv)
  then show ?thesis by (simp add: UnsafeRange_def key_backend_def len[symmetric])
qed

lemma wrap_last:
  "wrap_rows \<noteq> []" "length wrap_rows = restoreChunkKeys"
  "bytesToRev (take revBytesLen (fst (last wrap_rows))) = Some \<lparr>main = 2, sub = - 1\<rparr>"
  by (simp_all add: wrap_rows_def restoreChunkKeys_def length_revToBytes revBytesLen_def
      bytesToRev_revToBytes)

lemma wrap_scan_aux:
  assumes "restore_scan f be mn mx st = Some res"
  shows "(\<forall>st. \<exists>st'. f wrap_rows st = Inr st') \<longrightarrow> be = key_backend wrap_rows
     \<longrightarrow> (mn = revToBytes \<lparr>main = 1, sub = 0\<rparr> \<or> mn = revToBytes \<lparr>main = 2, sub = 0\<rparr>)
     \<longrightarrow> mx = revToBytes \<lparr>main = MaxInt64, sub = MaxInt64\<rparr> \<longrightarrow> False"
proof (rule restore_scan.raw_induct[where P = "\<lambda>f be mn mx st res.
    (\<forall>st. \<exists>st'. f wrap_rows st = Inr st') \<longrightarrow> be = key_backend wrap_rows
     \<longrightarrow> (mn = revToBytes \<lparr>main = 1, sub = 0\<rparr> \<or> mn = revToBytes \<lparr>main = 2, sub = 0\<rparr>)
     \<longrightarrow> mx = revToBytes \<lparr>main = MaxInt64, sub = MaxInt64\<rparr> \<longrightarrow> False", OF _ assms], goal_cases)
  case (1 rs f be mn mx st res)
  show ?case
  proof (intro impI)
    assume tot: "\<forall>st. \<exists>st'. f wrap_rows st = Inr st'"
      and be: "be = key_backend wrap_rows"
      and mn: "mn = revToBytes \<lparr>main = 1, sub = 0\<rparr> \<or> mn = revToBytes \<lparr>main = 2, sub = 0\<rparr>"
      and mx: "mx = revToBytes \<lparr>main = MaxInt64, sub = MaxInt64\<rparr>"
    from tot obtain st' where f: "f wrap_rows st = Inr st'" by blast
    have r: "UnsafeRange be keyBucketName mn (Some mx) restoreChunkKeys = wrap_rows"
      unfolding be mx using mn by (rule wrap_range)
    from 1(2) have "rs f be (revToBytes \<lparr>main = 2, sub = 0\<rparr>) mx st' = Some res"
      unfolding r Let_def by (simp add: wrap_last f)
    from 1(1)[OF this] tot be mx show False by blast
  qed
qed

lemma wrap_scan_loops:
  assumes "\<And>st. \<exists>st'. f wrap_rows st = Inr st'"
  shows "restore_scan f (key_backend wrap_rows) (revToBytes \<lparr>main = 1, sub = 0\<rparr>)
     (revToBytes \<lparr>main = MaxInt64, sub = MaxInt64\<rparr>) st = None"
proof (cases "restore_scan f (key_backend wrap_rows) (revToBytes \<lparr>main = 1, sub = 0\<rparr>)
     (revToBytes \<lparr>main = MaxInt64, sub = MaxInt64\<rparr>) st")
  case None
  then show ?thesis .
next
  case (Some res)
  from wrap_scan_aux[OF Some] assms show ?thesis by blast
qed

lemma count_loops:
  "restore_scan count_rows (key_backend wrap_rows) (revToBytes \<lparr>main = 1, sub = 0\<rparr>)
     (revToBytes \<lparr>main = MaxInt64, sub = MaxInt64\<rparr>) 0 = None"
  by (rule wrap_scan_loops) (simp add: count_rows_def)

lemma count_low:
  "restore_scan count_rows (key_backend low_rows) (revToBytes \<lparr>main = 1, sub = 0\<rparr>)
     (revToBytes \<lparr>main = MaxInt64, sub = MaxInt64\<rparr>) 0 = Some (Inr 0)"
  by (rule restore_scan_empty) (rule low_range)

lemma restoreRow_total:
  assumes "um (snd row) \<noteq> None" "revBytesLen \<le> length (fst row)"
  shows "\<exists>r. restoreRow um row st = Inr r"
proof -
  obtain un k2l s where st: "st = (un, k2l, s)" by (cases st) auto
  from assms(1) obtain kv where u: "um (snd row) = Some kv" by auto
  from assms(2) have "bytesToRev (take revBytesLen (fst row)) \<noteq> None"
    by (simp add: bytesToRev_def)
  then obtain r where b: "bytesToRev (take revBytesLen (fst row)) = Some r" by auto
  show ?thesis by (simp add: restoreRow_def st u b Let_def)
qed

lemma restoreChunk_total:
  assumes "\<forall>row \<in> set rows. um (snd row) \<noteq> None \<and> revBytesLen \<le> length (fst row)"
  shows "\<exists>r. foldE (restoreRow um) rows st = Inr r"
  using assms
proof (induction rows arbitrary: st)
  case Nil
  show ?case by (rule exI[of _ st]) simp
next
  case (Cons row rows)
  from Cons.prems restoreRow_total[of um row st] obtain r where
    r: "restoreRow um row st = Inr r" by auto
  from Cons.IH[of r] Cons.prems show ?case by (simp add: r)
qed

lemma restore_send_total:
  assumes "\<forall>row \<in> set rows. um (snd row) \<noteq> None \<and> revBytesLen \<le> length (fst row)"
  shows "\<exists>st'. restore_send um rows st = Inr st'"
proof -
  from restoreChunk_total[OF assms, of "([], fst st, snd st)"] obtain r where
    "foldE (restoreRow um) rows ([], fst st, snd st) = Inr r" ..
  then show ?thesis by (cases r) (simp add: restore_send_def restoreChunk_def)
qed

lemma wrap_rows_plain:
  "\<forall>row \<in> set wrap_rows. plain_kv (snd row) \<noteq> None \<and> revBytesLen \<le> length (fst row)"
  by (auto simp: wrap_rows_def plain_kv_def length_revToBytes revBytesLen_def)

lemma restore_wrap:
  "restore plain_kv (new_store (key_backend wrap_rows) None None) = None"
proof -
  let ?s = "new_store (key_backend wrap_rows) None None"
  have b1: "b (tx_Lock ?s) = key_backend wrap_rows"
    by (simp add: tx_Lock_def emit_def new_store_def)
  have sc: "restore_scan (restore_send plain_kv) (key_backend wrap_rows)
      (revToBytes \<lparr>main = 1, sub = 0\<rparr>) (revToBytes \<lparr>main = MaxInt64, sub = MaxInt64\<rparr>) st = None"
    for st
    by (rule wrap_scan_loops) (rule restore_send_total[OF wrap_rows_plain])
  have "restore_index plain_kv ?s = None"
    by (simp add: restore_index_def Let_def b1 key_backend_simps sc)
  then show ?thesis by (simp add: restore_def)
qed

lemma restore_low:
  "restore plain_kv (new_store (key_backend low_rows) None None)
     = Some (Inr (tx_Unlock (tx_Lock (new_store (key_backend low_rows) None None))))"
proof -
  let ?s = "new_store (key_backend low_rows) None None"
  have b1: "b (tx_Lock ?s) = key_backend low_rows"
    by (simp add: tx_Lock_def emit_def new_store_def)
  have n: "\<not> currentRev (tx_Lock ?s) <s compactMainRev (tx_Lock ?s)"
    by (simp add: tx_Lock_def emit_def new_store_def word_sless_alt)
  have sc: "restore_scan f (key_backend low_rows)
      (revToBytes \<lparr>main = 1, sub = 0\<rparr>) mx st = Some (Inr st)"
    for f mx and st :: "keyToLease \<times> store"
    by (rule restore_scan_empty) (rule low_range)
  have ix: "restore_index plain_kv ?s = Some (Inr (tx_Unlock (tx_Lock ?s), 0))"
    by (simp add: restore_index_def Let_def b1 key_backend_simps sc n attach_leases_def)
  show ?thesis unfolding restore_eq[OF ix] by simp
qed

lemma low_index:
  "kvindex (tx_Unlock (tx_Lock (new_store (key_backend low_rows) None None))) = []"
  "trace (tx_Unlock (tx_Lock (new_store (key_backend low_rows) None None))) = [TxLock, TxUnlock]"
  by (simp_all add: tx_Unlock_def tx_Lock_def emit_def new_store_def newTreeIndex_def)

lemma unat_of_small:
  assumes "n < 2 ^ 64"
  shows "unat (of_nat n :: 64 word) = n"
  using assms by (simp add: unat_of_nat take_bit_nat_eq_self)

lemma wrap_rows_sorted: "sorted_wrt (<) (map fst wrap_rows)"
proof -
  let ?g = "\<lambda>i. revToBytes \<lparr>main = 2, sub = of_nat i\<rparr>"
  have m: "map fst wrap_rows = map ?g [0..<restoreChunkKeys - 1] @ [revToBytes \<lparr>main = 2, sub = - 1\<rparr>]"
    by (simp add: wrap_rows_def comp_def)
  have small: "unat (of_nat i :: 64 word) = i" if "i < restoreChunkKeys - 1" for i
    using that by (intro unat_of_small) (simp add: restoreChunkKeys_def)
  have a: "?g i < ?g j" if "i < j" "j < restoreChunkKeys - 1" for i j
    using that small[of i] small[of j] by (simp add: revToBytes_less_iff word_less_nat_alt)
  have b: "?g i < revToBytes \<lparr>main = 2, sub = - 1\<rparr>" if "i < restoreChunkKeys - 1" for i
    using that small[of i]
    by (simp add: revToBytes_less_iff word_less_nat_alt unsigned_minus_1_eq_mask mask_eq_exp_minus_1
        restoreChunkKeys_def)
  have "sorted_wrt (<) (map ?g [0..<restoreChunkKeys - 1])"
    unfolding sorted_wrt_iff_nth_less using a by (auto simp: nth_map)
  then show ?thesis unfolding m sorted_wrt_append using b by auto
qed

text \<open>
  Claim C9, as stated, fails on backends whose key bucket holds keys that the store does
  not write. A row at the revision \<open>(0, 5)\<close> lies below the start of the scan: the first
  range is empty, the loop ends, and the row is never handed over, so that \<^verbatim>\<open>restore\<close>
  returns with an empty index. And on a bucket of 10000 rows in ascending order whose
  last row has \<open>sub = -1\<close>, \<^verbatim>\<open>newMin.sub++\<close> wraps around to 0: the next scan starts at
  \<open>(2, 0)\<close>, reads the same 10000 rows again, and the loop never ends.
\<close>

theorem restore_scan_skips_or_loops:
  "batch (key_backend low_rows) keyBucketName = [(revToBytes \<lparr>main = 0, sub = 5\<rparr>, [0, 97])]
   \<and> restore_scan count_rows (key_backend low_rows) (revToBytes \<lparr>main = 1, sub = 0\<rparr>)
        (revToBytes \<lparr>main = MaxInt64, sub = MaxInt64\<rparr>) 0 = Some (Inr 0)
   \<and> restore plain_kv (new_store (key_backend low_rows) None None)
       = Some (Inr (tx_Unlock (tx_Lock (new_store (key_backend low_rows) None None))))
   \<and> kvindex (tx_Unlock (tx_Lock (new_store (key_backend low_rows) None None))) = []
   \<and> length (batch (key_backend wrap_rows) keyBucketName) = restoreChunkKeys
   \<and> sorted_wrt (<) (map fst (batch (key_backend wrap_rows) keyBucketName))
   \<and> restore_scan count_rows (key_backend wrap_rows) (revToBytes \<lparr>main = 1, sub = 0\<rparr>)
        (revToBytes \<lparr>main = MaxInt64, sub = MaxInt64\<rparr>) 0 = None
   \<and> restore plain_kv (new_store (key_backend wrap_rows) None None) = None"
  using count_low restore_low low_index(1) wrap_last(2) wrap_rows_sorted count_loops restore_wrap
  by (simp add: key_backend_simps low_rows_def)

section \<open>Resuming a compaction\<close>

text \<open>
  When \<^verbatim>\<open>restore\<close> runs with \<^verbatim>\<open>mu\<close> locked and finds a compaction to resume, its call of
  \<^verbatim>\<open>Compact\<close> waits for \<^verbatim>\<open>mu\<close> without end. \<^verbatim>\<open>Restore\<close> runs it that way: on the
  backend that \<^verbatim>\<open>Compact(1)\<close> leaves behind, \<^verbatim>\<open>Restore\<close> does not return.
\<close>

lemma restore_blocks:
  assumes "mu s" and "batch (b s) keyBucketName = []"
    and "meta_main (b s) finishedCompactKeyName = Inr None"
    and "meta_main (b s) scheduledCompactKeyName = Inr (Some m)"
    and "compactMainRev s <s m" and "m \<noteq> 0"
  shows "restore um s = None"
proof -
  from assms(5) have n: "\<not> m \<le>s compactMainRev s" by (simp add: not_sle_iff)
  from restore_index_empty_keys[OF assms(2,3,4), of um] n obtain s1 where
    ix: "restore_index um s = Some (Inr (s1, m))" by simp
  from restore_index_mu[OF ix] assms(1) have "mu s1" by simp
  then show ?thesis unfolding restore_eq[OF ix] using assms(6) by simp
qed

lemma Restore_blocks_on_pending_compaction:
  "Restore no_unmarshal crash1_backend (new_store empty_backend None None) = None"
proof -
  have r: "restore no_unmarshal s6 = None"
    if "mu s6" "b s6 = crash1_backend" "compactMainRev s6 = - 1" for s6
    by (rule restore_blocks[where m = 1]) (simp_all add: that crash1_meta word_sless_alt)
  show ?thesis
    unfolding Restore_def Let_def make_chan_def mu_Lock_def
    by (simp add: new_store_def set_compactMainRev_def set_currentRev_def emit_def
        close_chan_def r)
qed




section \<open>The current revision after recovery\<close>

lemma foldE_chunks_store:
  assumes "foldE (restore_send um) cs st = Inr st'"
  shows "compactMainRev (snd st') = compactMainRev (snd st)
     \<and> currentRev (snd st') = cur_after (concat cs) (currentRev (snd st))"
  using assms
proof (induction cs arbitrary: st)
  case Nil
  then show ?case by (simp add: cur_after_def)
next
  case (Cons c cs)
  from Cons.prems obtain st1 where
    r: "restore_send um c st = Inr st1" and f: "foldE (restore_send um) cs st1 = Inr st'"
    by (auto split: sum.splits)
  from restore_send_store[OF r] Cons.IH[OF f] show ?case
    by (simp add: cur_after_append)
qed

lemma restore_index_currentRev:
  assumes ok: "key_bucket_ok (batch (b s) keyBucketName)"
    and r: "restore_index um s = Some (Inr (s1, sc))"
  shows "\<exists>fin. meta_main (b s) finishedCompactKeyName = Inr fin
     \<and> currentRev s1 =
         (if cur_after (batch (b s) keyBucketName) (currentRev s)
               <s (case fin of None \<Rightarrow> compactMainRev s | Some m \<Rightarrow> m)
          then (case fin of None \<Rightarrow> compactMainRev s | Some m \<Rightarrow> m)
          else cur_after (batch (b s) keyBucketName) (currentRev s))"
proof -
  have b1: "b (tx_Lock s) = b s" by (simp add: tx_Lock_def emit_def)
  have b2: "b (set_compactMainRev m (tx_Lock s)) = b s" for m
    by (simp add: tx_Lock_def set_compactMainRev_def emit_def)
  have sa: "restore_scan f (b s) (revToBytes \<lparr>main = 1, sub = 0\<rparr>)
      (revToBytes \<lparr>main = MaxInt64, sub = MaxInt64\<rparr>) st
       = Some (foldE f (chunked restoreChunkKeys (batch (b s) keyBucketName)) st)"
    for f and st :: "keyToLease \<times> store"
    using ok by (rule scan_all)
  from r obtain fin k2l s3 s5 where
    f: "meta_main (b s) finishedCompactKeyName = Inr fin"
    and scan: "foldE (restore_send um) (chunked restoreChunkKeys (batch (b s) keyBucketName))
        ([], case fin of None \<Rightarrow> tx_Lock s | Some m \<Rightarrow> set_compactMainRev m (tx_Lock s))
        = Inr (k2l, s3)"
    and att: "attach_leases k2l (if currentRev s3 <s compactMainRev s3
           then set_currentRev (compactMainRev s3) s3 else s3) = Inr s5"
    and e1: "s1 = tx_Unlock s5"
    unfolding restore_index_def Let_def b1
    by (auto simp: b1 b2 sa split: sum.splits option.splits prod.splits)
  let ?s2 = "case fin of None \<Rightarrow> tx_Lock s | Some m \<Rightarrow> set_compactMainRev m (tx_Lock s)"
  let ?c = "case fin of None \<Rightarrow> compactMainRev s | Some m \<Rightarrow> m"
  have q0: "compactMainRev ?s2 = ?c" "currentRev ?s2 = currentRev s"
    by (simp_all add: tx_Lock_def set_compactMainRev_def emit_def split: option.splits)
  from foldE_chunks_store[OF scan] q0
  have c3: "compactMainRev s3 = ?c"
    and r3: "currentRev s3 = cur_after (batch (b s) keyBucketName) (currentRev s)"
    by (simp_all add: concat_chunked)
  let ?s4 = "if currentRev s3 <s compactMainRev s3
           then set_currentRev (compactMainRev s3) s3 else s3"
  have r4: "currentRev ?s4 = (if currentRev s3 <s ?c then ?c else currentRev s3)"
    using c3 by (simp add: set_currentRev_def emit_def)
  have "currentRev s5 = currentRev ?s4" using attach_leases_revs[OF att] by simp
  then have "currentRev s1 = (if currentRev s3 <s ?c then ?c else currentRev s3)"
    using r4 by (simp add: e1 tx_Unlock_def emit_def)
  with f r3 show ?thesis by simp
qed

lemma max_main_last:
  assumes ok: "key_bucket_ok rows" and ne: "rows \<noteq> []"
  shows "Max (insert 1 (set (map (\<lambda>row. sint (main (key_rev (fst row)))) rows)))
       = sint (main (key_rev (fst (last rows))))"
proof (rule Max_eqI)
  show "finite (insert 1 (set (map (\<lambda>row. sint (main (key_rev (fst row)))) rows)))" by simp
  show "sint (main (key_rev (fst (last rows))))
      \<in> insert 1 (set (map (\<lambda>row. sint (main (key_rev (fst row)))) rows))"
    using ne by simp
  fix y assume y: "y \<in> insert 1 (set (map (\<lambda>row. sint (main (key_rev (fst row)))) rows))"
  have wl: "wf_key (fst (last rows))" using ok ne by (simp add: key_bucket_ok_def list_all_iff)
  have srt: "sorted_wrt (\<lambda>x y. rev_less (key_rev (fst x)) (key_rev (fst y))) rows"
    using ok by (simp add: key_bucket_ok_def sorted_wrt_map)
  from y consider "y = 1" | row where "row \<in> set rows" "y = sint (main (key_rev (fst row)))"
    by auto
  then show "y \<le> sint (main (key_rev (fst (last rows))))"
  proof cases
    case 1
    then show ?thesis using wl by (simp add: wf_key_def word_sle_eq)
  next
    case 2
    from sorted_wrt_last[OF srt 2(1)] show ?thesis
      unfolding 2(2) by (auto simp: rev_less_def word_sless_alt)
  qed
qed

text \<open>
  Claim C5, as amended. Take a store with \<open>currentRev = 1\<close> and \<open>compactMainRev = -1\<close>, as
  \<^verbatim>\<open>NewStore\<close> and \<^verbatim>\<open>Restore\<close> set them, over a backend whose key bucket is as the store
  leaves it. When \<^verbatim>\<open>restore\<close> returns, \<open>currentRev\<close> is the maximum of 1, of the main
  revisions of the rows of the key bucket, and of the main revision stored under
  \<^verbatim>\<open>finishedCompactRev\<close> if there is one: the scan sets \<open>currentRev\<close> to the main revision
  of every row in ascending order, starting from 1, and \<^verbatim>\<open>restore\<close> then lifts it to
  \<open>compactMainRev\<close> when it is smaller.
\<close>

theorem restore_currentRev:
  assumes ok: "key_bucket_ok (batch (b s) keyBucketName)"
    and c1: "currentRev s = 1" and cm: "compactMainRev s = - 1"
    and r: "restore um s = Some (Inr s')"
  shows "\<exists>fin. meta_main (b s) finishedCompactKeyName = Inr fin
     \<and> sint (currentRev s') =
         Max (insert 1 (set (map (\<lambda>row. sint (main (key_rev (fst row))))
                 (batch (b s) keyBucketName))
               \<union> (case fin of None \<Rightarrow> {} | Some c \<Rightarrow> {sint c})))"
proof -
  let ?rows = "batch (b s) keyBucketName"
  let ?M = "insert 1 (set (map (\<lambda>row. sint (main (key_rev (fst row)))) ?rows))"
  from r obtain s1 sc where ri: "restore_index um s = Some (Inr (s1, sc))"
    unfolding restore_def by (auto split: sum.splits option.splits prod.splits)
  from r have e: "s' = (if sc \<noteq> 0 then snd (Compact sc s1) else s1)"
    unfolding restore_eq[OF ri] by (auto split: if_splits)
  have cs: "currentRev s' = currentRev s1" by (simp add: e Compact_currentRev)
  from restore_index_currentRev[OF ok ri] obtain fin where
    f: "meta_main (b s) finishedCompactKeyName = Inr fin"
    and c: "currentRev s1 =
         (if cur_after ?rows 1 <s (case fin of None \<Rightarrow> - 1 | Some m \<Rightarrow> m)
          then (case fin of None \<Rightarrow> - 1 | Some m \<Rightarrow> m)
          else cur_after ?rows 1)"
    unfolding c1 cm by blast
  have L: "Max ?M = sint (cur_after ?rows 1)"
  proof (cases "?rows = []")
    case True
    then show ?thesis by (simp add: cur_after_def)
  next
    case False
    from max_main_last[OF ok False] False show ?thesis by (simp add: cur_after_def)
  qed
  have "1 \<le> Max ?M" by (rule Max_ge) simp_all
  then have one: "1 \<le> sint (cur_after ?rows 1)" unfolding L .
  have "sint (currentRev s1) = Max (?M \<union> (case fin of None \<Rightarrow> {} | Some c \<Rightarrow> {sint c}))"
  proof (cases fin)
    case None
    have "\<not> cur_after ?rows 1 <s - 1" using one by (simp add: word_sless_alt)
    then show ?thesis using None c L by simp
  next
    case (Some m)
    have "Max (?M \<union> {sint m}) = max (Max ?M) (sint m)"
      by (subst Max_Un) simp_all
    then show ?thesis using Some c L by (auto simp: word_sless_alt max_def)
  qed
  with f cs show ?thesis by auto
qed

lemma isTombstone_enc:
  "isTombstone (revToBytes r @ [markTombstone])" "\<not> isTombstone (revToBytes r)"
  by (simp_all add: isTombstone_def length_revToBytes markedRevBytesLen_def revBytesLen_def
      markBytePosition_def nth_append)

lemma sample_chunk:
  "restoreChunk plain_kv sample_rows [] s =
     Inr ([([97], \<lparr>key = [97], calls = [Ki_restore \<lparr>main = 1, sub = 0\<rparr> \<lparr>main = 2, sub = 0\<rparr> 1,
                                       Ki_tombstone 3 0]\<rparr>),
           ([98], \<lparr>key = [98], calls = [Ki_restore \<lparr>main = 1, sub = 0\<rparr> \<lparr>main = 4, sub = 0\<rparr> 1]\<rparr>)],
          [], set_currentRev 4 (set_currentRev 3 (set_currentRev 2 s)))"
  by (simp add: restoreChunk_def sample_rows_def restoreRow_def plain_kv_def bytesToRev_revToBytes
      Let_def keyIndex_restore_def keyIndex_tombstone_def NoLease_def length_revToBytes
      revBytesLen_def isTombstone_enc)

lemma sample_meta:
  "meta_main sample_backend name = Inr None"
  "batch sample_backend keyBucketName = sample_rows"
  by (simp_all add: meta_main_def UnsafeRange_def sample_backend_def names_distinct(1)[symmetric])

lemma sample_restore:
  "\<exists>s'. restore plain_kv (new_store sample_backend None None) = Some (Inr s')"
proof -
  let ?s = "new_store sample_backend None None"
  have b0: "b ?s = sample_backend" by (simp add: new_store_def)
  have b1: "b (tx_Lock ?s) = sample_backend" by (simp add: tx_Lock_def emit_def new_store_def)
  have ok: "key_bucket_ok (batch sample_backend keyBucketName)"
    unfolding sample_meta by (rule sample_rows_ok)
  have ch: "chunked restoreChunkKeys sample_rows = [sample_rows]"
    by (rule chunked_short) (simp_all add: sample_rows_def restoreChunkKeys_def)
  have sc: "restore_scan (restore_send plain_kv) sample_backend (revToBytes \<lparr>main = 1, sub = 0\<rparr>)
      (revToBytes \<lparr>main = MaxInt64, sub = MaxInt64\<rparr>) ([], tx_Lock ?s)
     = Some (restore_send plain_kv sample_rows ([], tx_Lock ?s))"
    unfolding scan_all[OF ok] sample_meta ch by (simp split: sum.splits)
  have "\<exists>s1 sc. restore_index plain_kv ?s = Some (Inr (s1, sc))"
    by (simp add: restore_index_def Let_def b1 sample_meta sc restore_send_def sample_chunk
        attach_leases_def)
  then obtain s1 sc where ri: "restore_index plain_kv ?s = Some (Inr (s1, sc))" by blast
  from restore_index_mu[OF ri] have "\<not> mu s1" by (simp add: new_store_def)
  then show ?thesis unfolding restore_eq[OF ri] by simp
qed

theorem restore_currentRev_witness:
  "key_bucket_ok (batch (b (new_store sample_backend None None)) keyBucketName)
   \<and> currentRev (new_store sample_backend None None) = 1
   \<and> compactMainRev (new_store sample_backend None None) = - 1
   \<and> (\<exists>s'. restore plain_kv (new_store sample_backend None None) = Some (Inr s')
          \<and> sint (currentRev s') = 4)"
proof -
  let ?s = "new_store sample_backend None None"
  have b0: "b ?s = sample_backend" by (simp add: new_store_def)
  have ok: "key_bucket_ok (batch (b ?s) keyBucketName)"
    unfolding b0 sample_meta by (rule sample_rows_ok)
  have c1: "currentRev ?s = 1" and cm: "compactMainRev ?s = - 1" by (simp_all add: new_store_def)
  from sample_restore obtain s' where r: "restore plain_kv ?s = Some (Inr s')" ..
  from restore_currentRev[OF ok c1 cm r] have "sint (currentRev s') = 4"
    unfolding b0 sample_meta by (simp add: sample_rows_def key_rev_enc)
  with ok c1 cm r show ?thesis by blast
qed

text \<open>
  Claim C5, as stated, fails when a compaction is recorded at a revision below 1 and the
  key bucket is empty. \<^verbatim>\<open>Compact(0)\<close> is accepted by a new store; once its sweep has
  finished the meta bucket holds \<^verbatim>\<open>finishedCompactRev = 0\<close>. Recovery from that backend
  leaves \<open>currentRev = 1\<close>, where the claim gives the recorded \<open>compactMainRev\<close>, 0.
\<close>

theorem restore_currentRev_after_compact_zero:
  "batch compacted0_backend keyBucketName = []
   \<and> meta_main compacted0_backend finishedCompactKeyName = Inr (Some 0)
   \<and> restore no_unmarshal (new_store compacted0_backend None None)
       = Some (Inr (tx_Unlock (set_compactMainRev 0 (tx_Lock (new_store compacted0_backend None None)))))
   \<and> currentRev (tx_Unlock (set_compactMainRev 0 (tx_Lock (new_store compacted0_backend None None)))) = 1
   \<and> claimed_currentRev (batch compacted0_backend keyBucketName) (Some 0) = 0
   \<and> sint (currentRev (tx_Unlock (set_compactMainRev 0 (tx_Lock (new_store compacted0_backend None None)))))
       \<noteq> claimed_currentRev (batch compacted0_backend keyBucketName) (Some 0)"
proof -
  let ?s = "new_store compacted0_backend None None"
  have b0: "b ?s = compacted0_backend" by (simp add: new_store_def)
  have h: "restore_index no_unmarshal ?s
     = Some (Inr (tx_Unlock (set_compactMainRev 0 (tx_Lock ?s)), 0))"
    by (subst restore_index_empty_keys[where fin = "Some 0" and sch = "Some 0"])
      (simp_all add: b0 compacted0_meta, simp_all add: new_store_def word_sless_alt word_sle_eq)
  have r: "restore no_unmarshal ?s = Some (Inr (tx_Unlock (set_compactMainRev 0 (tx_Lock ?s))))"
    unfolding restore_def h by simp
  have c: "currentRev (tx_Unlock (set_compactMainRev 0 (tx_Lock ?s))) = 1"
    by (simp add: tx_Unlock_def set_compactMainRev_def tx_Lock_def emit_def new_store_def)
  have cl: "claimed_currentRev (batch compacted0_backend keyBucketName) (Some 0) = 0"
    by (simp add: compacted0_meta claimed_currentRev_def)
  from compacted0_meta(2,3) r c cl show ?thesis by simp
qed

section \<open>Tombstones in a chunk\<close>

lemma tomb_after_put_append:
  "tomb_after_put um seen k r \<Longrightarrow> tomb_after_put um (seen @ rest) k r"
  unfolding tomb_after_put_def
proof (elim exE conjE)
  fix xs p ys t zs
  assume "seen = xs @ p # ys @ t # zs" "is_put_of um p k" "is_tombstone_of um t k" "key_rev (fst t) = r"
  then have "seen @ rest = xs @ p # ys @ t # (zs @ rest) \<and> is_put_of um p k
      \<and> is_tombstone_of um t k \<and> key_rev (fst t) = r" by simp
  then show "\<exists>xs p ys t zs. seen @ rest = xs @ p # ys @ t # zs \<and> is_put_of um p k
      \<and> is_tombstone_of um t k \<and> key_rev (fst t) = r" by blast
qed

lemma chunk_inv_append:
  "chunk_inv um seen un \<Longrightarrow> chunk_inv um (seen @ rest) un"
  unfolding chunk_inv_def
proof (intro allI impI)
  fix k ki
  assume a: "\<forall>k ki. map_of un k = Some ki \<longrightarrow>
        (\<exists>p \<in> set seen. is_put_of um p k)
        \<and> (\<forall>m sb. Ki_tombstone m sb \<in> set (calls ki) \<longrightarrow>
              tomb_after_put um seen k \<lparr>main = m, sub = sb\<rparr>)"
    and m: "map_of un k = Some ki"
  from a m obtain p where "p \<in> set seen" "is_put_of um p k" by blast
  then have "\<exists>p\<in>set (seen @ rest). is_put_of um p k" by auto
  moreover from a m have "\<forall>m sb. Ki_tombstone m sb \<in> set (calls ki) \<longrightarrow>
              tomb_after_put um (seen @ rest) k \<lparr>main = m, sub = sb\<rparr>"
    by (blast intro: tomb_after_put_append)
  ultimately show "(\<exists>p\<in>set (seen @ rest). is_put_of um p k) \<and>
       (\<forall>m sb. Ki_tombstone m sb \<in> set (calls ki) \<longrightarrow>
              tomb_after_put um (seen @ rest) k \<lparr>main = m, sub = sb\<rparr>)" by blast
qed

lemma put_then_tomb:
  assumes "p \<in> set seen" "is_put_of um p k" "is_tombstone_of um t k"
  shows "tomb_after_put um (seen @ [t]) k (key_rev (fst t))"
proof -
  from split_list[OF assms(1)] obtain xs ys where "seen = xs @ p # ys" by blast
  then have "seen @ [t] = xs @ p # ys @ t # []" by simp
  with assms(2,3) show ?thesis unfolding tomb_after_put_def by blast
qed

lemma restoreRow_cases:
  assumes "restoreRow um row (un, k2l, s) = Inr (un', k2l', s')"
  obtains kv where "um (snd row) = Some kv"
    "bytesToRev (take revBytesLen (fst row)) = Some (key_rev (fst row))"
    "s' = set_currentRev (main (key_rev (fst row))) s"
    "isTombstone (fst row) \<Longrightarrow>
       un' = (case map_of un (Key kv) of
                Some ki \<Rightarrow> AList.update (Key kv)
                   (keyIndex_tombstone (main (key_rev (fst row))) (sub (key_rev (fst row))) ki) un
              | None \<Rightarrow> un)
       \<and> k2l' = AList.delete (Key kv) k2l"
    "\<not> isTombstone (fst row) \<Longrightarrow>
       un' = (case map_of un (Key kv) of
                Some ki \<Rightarrow> AList.update (Key kv)
                   (keyIndex_put (main (key_rev (fst row))) (sub (key_rev (fst row))) ki) un
              | None \<Rightarrow> AList.update (Key kv)
                   (keyIndex_restore \<lparr>main = CreateRevision kv, sub = 0\<rparr> (key_rev (fst row))
                      (Version kv) \<lparr>key = Key kv, calls = []\<rparr>) un)
       \<and> k2l' = (if Lease kv \<noteq> NoLease then AList.update (Key kv) (Lease kv) k2l
                 else AList.delete (Key kv) k2l)"
  using assms unfolding restoreRow_def key_rev_def Let_def
  by (auto split: option.splits if_splits)

lemma restoreRow_inv:
  assumes r: "restoreRow um row (un, k2l, s) = Inr (un', k2l', s')"
    and inv: "chunk_inv um seen un"
  shows "chunk_inv um (seen @ [row]) un'"
proof -
  from r obtain kv where kv: "um (snd row) = Some kv"
    and t: "isTombstone (fst row) \<Longrightarrow>
       un' = (case map_of un (Key kv) of
                Some ki \<Rightarrow> AList.update (Key kv)
                   (keyIndex_tombstone (main (key_rev (fst row))) (sub (key_rev (fst row))) ki) un
              | None \<Rightarrow> un)"
    and p: "\<not> isTombstone (fst row) \<Longrightarrow>
       un' = (case map_of un (Key kv) of
                Some ki \<Rightarrow> AList.update (Key kv)
                   (keyIndex_put (main (key_rev (fst row))) (sub (key_rev (fst row))) ki) un
              | None \<Rightarrow> AList.update (Key kv)
                   (keyIndex_restore \<lparr>main = CreateRevision kv, sub = 0\<rparr> (key_rev (fst row))
                      (Version kv) \<lparr>key = Key kv, calls = []\<rparr>) un)"
    by (rule restoreRow_cases) blast
  note ext = chunk_inv_append[OF inv, of "[row]"]
  show ?thesis
  proof (cases "isTombstone (fst row)")
    case True
    then have tk: "is_tombstone_of um row (Key kv)" by (simp add: is_tombstone_of_def kv)
    show ?thesis
    proof (cases "map_of un (Key kv)")
      case None
      with t[OF True] ext show ?thesis by simp
    next
      case (Some ki0)
      then have u: "un' = AList.update (Key kv)
          (keyIndex_tombstone (main (key_rev (fst row))) (sub (key_rev (fst row))) ki0) un"
        using t[OF True] by simp
      from inv Some obtain p0 where p0: "p0 \<in> set seen" "is_put_of um p0 (Key kv)"
        unfolding chunk_inv_def by blast
      have new: "tomb_after_put um (seen @ [row]) (Key kv) (key_rev (fst row))"
        by (rule put_then_tomb[OF p0 tk])
      have old: "tomb_after_put um (seen @ [row]) (Key kv) \<lparr>main = m, sub = sb\<rparr>"
        if "Ki_tombstone m sb \<in> set (calls ki0)" for m sb
        using inv Some that unfolding chunk_inv_def by (blast intro: tomb_after_put_append)
      show ?thesis
        unfolding chunk_inv_def
      proof (intro allI impI)
        fix k ki assume m: "map_of un' k = Some ki"
        show "(\<exists>p\<in>set (seen @ [row]). is_put_of um p k) \<and>
           (\<forall>m sb. Ki_tombstone m sb \<in> set (calls ki) \<longrightarrow>
              tomb_after_put um (seen @ [row]) k \<lparr>main = m, sub = sb\<rparr>)"
        proof (cases "k = Key kv")
          case True
          then have ki: "ki = keyIndex_tombstone (main (key_rev (fst row)))
              (sub (key_rev (fst row))) ki0"
            using m by (simp add: u update_conv')
          have "tomb_after_put um (seen @ [row]) k \<lparr>main = m, sub = sb\<rparr>"
            if "Ki_tombstone m sb \<in> set (calls ki)" for m sb
          proof (cases "Ki_tombstone m sb \<in> set (calls ki0)")
            case True
            then show ?thesis using old \<open>k = Key kv\<close> by simp
          next
            case False
            with that have "m = main (key_rev (fst row)) \<and> sb = sub (key_rev (fst row))"
              by (simp add: ki keyIndex_tombstone_def)
            then have "\<lparr>main = m, sub = sb\<rparr> = key_rev (fst row)" by simp
            then show ?thesis using new \<open>k = Key kv\<close> by simp
          qed
          moreover have "\<exists>p\<in>set (seen @ [row]). is_put_of um p k"
            using p0 True by auto
          ultimately show ?thesis by blast
        next
          case False
          then have "map_of un k = Some ki" using m by (simp add: u update_conv')
          with ext show ?thesis unfolding chunk_inv_def by blast
        qed
      qed
    qed
  next
    case False
    then have pk: "is_put_of um row (Key kv)" by (simp add: is_put_of_def kv)
    show ?thesis
      unfolding chunk_inv_def
    proof (intro allI impI)
      fix k ki assume m: "map_of un' k = Some ki"
      show "(\<exists>p\<in>set (seen @ [row]). is_put_of um p k) \<and>
           (\<forall>m sb. Ki_tombstone m sb \<in> set (calls ki) \<longrightarrow>
              tomb_after_put um (seen @ [row]) k \<lparr>main = m, sub = sb\<rparr>)"
      proof (cases "k = Key kv")
        case True
        have tombs: "\<forall>m sb. Ki_tombstone m sb \<in> set (calls ki) \<longrightarrow>
              tomb_after_put um (seen @ [row]) k \<lparr>main = m, sub = sb\<rparr>"
        proof (cases "map_of un (Key kv)")
          case None
          then have "ki = keyIndex_restore \<lparr>main = CreateRevision kv, sub = 0\<rparr>
              (key_rev (fst row)) (Version kv) \<lparr>key = Key kv, calls = []\<rparr>"
            using m p[OF False] True by (simp add: update_conv')
          then show ?thesis by (simp add: keyIndex_restore_def)
        next
          case (Some ki0)
          then have "ki = keyIndex_put (main (key_rev (fst row))) (sub (key_rev (fst row))) ki0"
            using m p[OF False] True by (simp add: update_conv')
          then have "Ki_tombstone m sb \<in> set (calls ki) \<longrightarrow> Ki_tombstone m sb \<in> set (calls ki0)"
            for m sb by (simp add: keyIndex_put_def)
          moreover have "tomb_after_put um (seen @ [row]) (Key kv) \<lparr>main = m, sub = sb\<rparr>"
            if "Ki_tombstone m sb \<in> set (calls ki0)" for m sb
            using inv Some that unfolding chunk_inv_def by (blast intro: tomb_after_put_append)
          ultimately show ?thesis using True by blast
        qed
        have "\<exists>p\<in>set (seen @ [row]). is_put_of um p k" using pk True by auto
        with tombs show ?thesis by blast
      next
        case F2: False
        then have "map_of un k = Some ki"
          using m p[OF False] by (auto simp: update_conv' split: option.splits)
        with ext show ?thesis unfolding chunk_inv_def by blast
      qed
    qed
  qed
qed

lemma foldE_restoreRow_inv:
  assumes "foldE (restoreRow um) rows (un0, kl0, s0) = Inr (un, kl, s)"
    and "chunk_inv um seen un0"
  shows "chunk_inv um (seen @ rows) un"
  using assms
proof (induction rows arbitrary: un0 kl0 s0 seen)
  case Nil
  then show ?case by simp
next
  case (Cons row rows)
  from Cons.prems(1) obtain un1 kl1 s1 where
    r: "restoreRow um row (un0, kl0, s0) = Inr (un1, kl1, s1)"
    and f: "foldE (restoreRow um) rows (un1, kl1, s1) = Inr (un, kl, s)"
    by (auto split: sum.splits)
  from Cons.IH[OF f restoreRow_inv[OF r Cons.prems(2)]] show ?case by simp
qed

lemma foldE_append:
  "foldE f (xs @ ys) st = (case foldE f xs st of Inl e \<Rightarrow> Inl e | Inr st1 \<Rightarrow> foldE f ys st1)"
  by (induction xs arbitrary: st) (auto split: sum.splits)

lemma chunk_inv_empty: "chunk_inv um [] []"
  by (simp add: chunk_inv_def)

lemma restoreChunk_inv:
  assumes "restoreChunk um rows k2l s = Inr (un, k2l', s')"
  shows "chunk_inv um rows un"
  using foldE_restoreRow_inv[OF assms[unfolded restoreChunk_def] chunk_inv_empty] by simp

lemma restoreChunk_no_put:
  assumes "restoreChunk um rows k2l s = Inr (un, k2l', s')"
    and "\<forall>row \<in> set rows. \<not> is_put_of um row k"
  shows "map_of un k = None"
proof (rule ccontr)
  assume "map_of un k \<noteq> None"
  then obtain ki where "map_of un k = Some ki" by auto
  with restoreChunk_inv[OF assms(1)] assms(2) show False unfolding chunk_inv_def by blast
qed

lemma tombstone_key:
  assumes "isTombstone k"
  shows "k = revToBytes (key_rev k) @ [markTombstone]"
proof -
  from assms have l: "length k = 17" and m: "k ! 16 = markTombstone"
    by (simp_all add: isTombstone_def markedRevBytesLen_def revBytesLen_def markBytePosition_def)
  have d: "drop 16 k = [markTombstone]"
    using l m by (metis Cons_nth_drop_Suc drop_all le_refl lessI numeral_eq_Suc pred_numeral_simps(2,3)
        semiring_norm(26,27) Suc_eq_plus1 add.commute)
  have "revBytesLen \<le> length k" using l by (simp add: revBytesLen_def)
  from key_rev_take(2)[OF this] have "take 16 k = revToBytes (key_rev k)"
    by (simp add: revBytesLen_def)
  with d show ?thesis by (metis append_take_drop_id)
qed

lemma same_position:
  assumes "distinct (map f rows)" "rows = xs @ t # zs" "rows = as @ t' # bs" "f t = f t'"
  shows "xs = as"
proof -
  have d: "distinct (map f xs @ f t # map f zs)" using assms(1,2) by simp
  then have n1: "f t \<notin> set (map f xs)" and n2: "f t \<notin> set (map f zs)" by auto
  have "map f xs @ f t # map f zs = map f as @ f t # map f bs"
    using assms(2,3,4) by (metis list.simps(9) map_append)
  from this n1 n2 have "map f xs = map f as"
    by (metis d append_Cons_eq_iff distinct_append distinct.simps(2) append_eq_append_conv2
        append_self_conv2 list.inject)
  then have "length xs = length as" by (metis length_map)
  with assms(2,3) show ?thesis by (metis append_eq_append_conv)
qed

lemma tombstone_step:
  assumes r: "restoreRow um t (un1, kl1, s1) = Inr (un2, kl2, s2)"
    and t: "is_tombstone_of um t k" and n: "map_of un1 k = None"
  shows "restoreRow um t (un1, kl1, s1)
     = Inr (un1, AList.delete k kl1, set_currentRev (main (key_rev (fst t))) s1)"
proof -
  from t have tt: "isTombstone (fst t)" by (simp add: is_tombstone_of_def)
  from r obtain kv where kv: "um (snd t) = Some kv"
    and s: "s2 = set_currentRev (main (key_rev (fst t))) s1"
    and u: "un2 = (case map_of un1 (Key kv) of
                Some ki \<Rightarrow> AList.update (Key kv)
                   (keyIndex_tombstone (main (key_rev (fst t))) (sub (key_rev (fst t))) ki) un1
              | None \<Rightarrow> un1)
       \<and> kl2 = AList.delete (Key kv) kl1"
    by (rule restoreRow_cases) (use tt in blast)
  from t kv have "Key kv = k" by (simp add: is_tombstone_of_def)
  with u n s r show ?thesis by simp
qed

text \<open>
  Claim C10. Let \<^verbatim>\<open>restoreChunk\<close> return the map \<open>un\<close> for a chunk. A record of \<open>un\<close>
  has received \<^verbatim>\<open>tombstone(m, sb)\<close> only if the chunk holds a put of the record's key and,
  after it, a tombstone row of that key at revision \<open>(m, sb)\<close>. A key without a put in the
  chunk has no record in \<open>un\<close>. At a tombstone row whose key has no earlier put in the
  chunk, the map has no record of the key and the row leaves the map as it is: it deletes
  the key from \<^verbatim>\<open>keyToLease\<close> and sets \<open>currentRev\<close>, nothing else; when the keys of the
  chunk are distinct, as the keys of a bucket are, that tombstone is in no record of the
  returned map, also when a later row of the chunk puts the key again. The tree index
  receives the records of \<open>un\<close> and nothing else.
\<close>

theorem restoreChunk_tombstones:
  assumes c: "restoreChunk um rows k2l s = Inr (un, k2l', s')"
  shows "(\<forall>k ki m sb. map_of un k = Some ki \<and> Ki_tombstone m sb \<in> set (calls ki) \<longrightarrow>
            tomb_after_put um rows k \<lparr>main = m, sub = sb\<rparr>)
     \<and> (\<forall>k. (\<forall>row \<in> set rows. \<not> is_put_of um row k) \<longrightarrow> map_of un k = None)
     \<and> (\<forall>xs t zs k. rows = xs @ t # zs \<and> is_tombstone_of um t k
            \<and> (\<forall>p \<in> set xs. \<not> is_put_of um p k) \<longrightarrow>
          (\<exists>un1 kl1 s1. restoreChunk um xs k2l s = Inr (un1, kl1, s1) \<and> map_of un1 k = None
             \<and> restoreRow um t (un1, kl1, s1)
                 = Inr (un1, AList.delete k kl1, set_currentRev (main (key_rev (fst t))) s1)))
     \<and> (\<forall>xs t zs k ki. rows = xs @ t # zs \<and> is_tombstone_of um t k
            \<and> (\<forall>p \<in> set xs. \<not> is_put_of um p k) \<and> distinct (map fst rows)
            \<and> map_of un k = Some ki \<longrightarrow>
          Ki_tombstone (main (key_rev (fst t))) (sub (key_rev (fst t))) \<notin> set (calls ki))
     \<and> restore_send um rows (k2l, s) = Inr (k2l', insert_unordered un s')
     \<and> kvindex (insert_unordered un s') = kvindex s @ map (\<lambda>kv. Idx_Insert (snd kv)) un"
proof (intro conjI allI impI)
  note inv = restoreChunk_inv[OF c]
  show "tomb_after_put um rows k \<lparr>main = m, sub = sb\<rparr>"
    if "map_of un k = Some ki \<and> Ki_tombstone m sb \<in> set (calls ki)" for k ki m sb
    using inv that unfolding chunk_inv_def by blast
  show "map_of un k = None" if "\<forall>row \<in> set rows. \<not> is_put_of um row k" for k
    using c that by (rule restoreChunk_no_put)
  show "\<exists>un1 kl1 s1. restoreChunk um xs k2l s = Inr (un1, kl1, s1) \<and> map_of un1 k = None
             \<and> restoreRow um t (un1, kl1, s1)
                 = Inr (un1, AList.delete k kl1, set_currentRev (main (key_rev (fst t))) s1)"
    if h: "rows = xs @ t # zs \<and> is_tombstone_of um t k \<and> (\<forall>p \<in> set xs. \<not> is_put_of um p k)"
    for xs t zs k
  proof -
    from c h obtain un1 kl1 s1 un2 kl2 s2 where
      px: "restoreChunk um xs k2l s = Inr (un1, kl1, s1)"
      and rt: "restoreRow um t (un1, kl1, s1) = Inr (un2, kl2, s2)"
      unfolding restoreChunk_def by (auto simp: foldE_append split: sum.splits)
    from h have np: "\<forall>row \<in> set xs. \<not> is_put_of um row k" by blast
    have n: "map_of un1 k = None" using px np by (rule restoreChunk_no_put)
    from tombstone_step[OF rt _ n] h px n show ?thesis by blast
  qed
  show "Ki_tombstone (main (key_rev (fst t))) (sub (key_rev (fst t))) \<notin> set (calls ki)"
    if h: "rows = xs @ t # zs \<and> is_tombstone_of um t k
            \<and> (\<forall>p \<in> set xs. \<not> is_put_of um p k) \<and> distinct (map fst rows)
            \<and> map_of un k = Some ki" for xs t zs k ki
  proof
    assume "Ki_tombstone (main (key_rev (fst t))) (sub (key_rev (fst t))) \<in> set (calls ki)"
    with inv h have "tomb_after_put um rows k
        \<lparr>main = main (key_rev (fst t)), sub = sub (key_rev (fst t))\<rparr>"
      unfolding chunk_inv_def by blast
    then obtain as p ys t' bs where
      d: "rows = as @ p # ys @ t' # bs" and p: "is_put_of um p k"
      and t': "is_tombstone_of um t' k" and e: "key_rev (fst t') = key_rev (fst t)"
      unfolding tomb_after_put_def by auto
    have i1: "isTombstone (fst t')" and i2: "isTombstone (fst t)"
      using h t' by (simp_all add: is_tombstone_of_def)
    have a: "fst t' = revToBytes (key_rev (fst t')) @ [markTombstone]"
      using i1 by (rule tombstone_key)
    have b: "revToBytes (key_rev (fst t)) @ [markTombstone] = fst t"
      using i2 by (rule tombstone_key[symmetric])
    have eq: "fst t = fst t'" by (rule sym, rule trans[OF a[unfolded e] b])
    have r2: "rows = (as @ p # ys) @ t' # bs" unfolding d by simp
    have hx: "rows = xs @ t # zs" and hd: "distinct (map fst rows)"
      and hn: "\<forall>p \<in> set xs. \<not> is_put_of um p k" using h by blast+
    have "xs = as @ p # ys" by (rule same_position[OF hd hx r2 eq])
    then have "p \<in> set xs" by simp
    with hn p show False by blast
  qed
  show "restore_send um rows (k2l, s) = Inr (k2l', insert_unordered un s')"
    by (simp add: restore_send_def c)
  show "kvindex (insert_unordered un s') = kvindex s @ map (\<lambda>kv. Idx_Insert (snd kv)) un"
    using insert_unordered_store[of un s'] restoreChunk_store[OF c[unfolded restoreChunk_def]]
    by simp
qed

lemma lone_chunk:
  "restoreChunk plain_kv lone_tombstone [([97], 5)] s = Inr ([], [], set_currentRev 3 s)"
  by (simp add: restoreChunk_def lone_tombstone_def restoreRow_def plain_kv_def
      bytesToRev_revToBytes Let_def length_revToBytes revBytesLen_def AList.delete_eq
      isTombstone_enc)

theorem restoreChunk_tombstones_witness:
  "restoreChunk plain_kv lone_tombstone [([97], 5)] (new_store empty_backend None None)
     = Inr ([], [], set_currentRev 3 (new_store empty_backend None None))
   \<and> is_tombstone_of plain_kv (revToBytes \<lparr>main = 3, sub = 0\<rparr> @ [markTombstone], [0, 97]) [97]
   \<and> restoreRow plain_kv (revToBytes \<lparr>main = 3, sub = 0\<rparr> @ [markTombstone], [0, 97])
        ([], [([97], 5)], new_store empty_backend None None)
       = Inr ([], [], set_currentRev 3 (new_store empty_backend None None))
   \<and> kvindex (insert_unordered [] (set_currentRev 3 (new_store empty_backend None None))) = []"
proof -
  let ?s = "new_store empty_backend None None"
  let ?t = "(revToBytes \<lparr>main = 3, sub = 0\<rparr> @ [markTombstone], [0 :: byte, 97])"
  have h: "restoreChunk plain_kv lone_tombstone [([97], 5)] ?s = Inr ([], [], set_currentRev 3 ?s)"
    by (rule lone_chunk)
  have t: "is_tombstone_of plain_kv ?t [97]"
    by (simp add: is_tombstone_of_def plain_kv_def isTombstone_enc)
  have e: "restoreChunk plain_kv [] [([97], 5)] ?s = Inr ([], [([97], 5)], ?s)"
    by (simp add: restoreChunk_def)
  note w = restoreChunk_tombstones[OF h]
  note w3 = w[THEN conjunct2, THEN conjunct2, THEN conjunct1, rule_format, of "[]" ?t "[]" "[97]"]
  have "\<exists>un1 kl1 s1. restoreChunk plain_kv [] [([97], 5)] ?s = Inr (un1, kl1, s1) \<and> map_of un1 [97] = None
             \<and> restoreRow plain_kv ?t (un1, kl1, s1)
                 = Inr (un1, AList.delete [97] kl1, set_currentRev (main (key_rev (fst ?t))) s1)"
    by (rule w3) (simp add: lone_tombstone_def t)
  then have r: "restoreRow plain_kv ?t ([], [([97], 5)], ?s) = Inr ([], [], set_currentRev 3 ?s)"
    unfolding e by (simp add: AList.delete_eq key_rev_enc)
  note w6 = w[THEN conjunct2, THEN conjunct2, THEN conjunct2, THEN conjunct2, THEN conjunct2]
  from w6 have k: "kvindex (insert_unordered [] (set_currentRev 3 ?s)) = kvindex ?s @ []"
    by simp
  from h t r k show ?thesis by (simp add: new_store_def newTreeIndex_def)
qed

end
